theory Spec2Isabelle
  imports Main "HOL-Library.Sublist" "HOL-Library.Multiset"
begin

section \<open>The data of cache.go\<close>

text \<open>
  A \<^verbatim>\<open>*reCached[T]\<close> is an index into the list of allocated caches (the heap), a
  \<^verbatim>\<open>context.Context\<close> is identified by a number, and Go's \<^verbatim>\<open>error\<close> interface is
  \<open>error option\<close> with \<open>None\<close> for \<^verbatim>\<open>nil\<close>.

  The producer \<^verbatim>\<open>updateFunc func() (T, error)\<close> is a closure: it reads and writes
  variables of the application (the counters of cache\_test.go). Those variables are the
  component \<open>env\<close> of the world, and a producer is a function from the environment to its
  two results and the new environment. A producer returns BOTH results, so a value next
  to a non-nil error is representable. The producers modelled here are non-nil functions
  that return without panicking and do not call back into the package, and one
  invocation is one atomic step on \<open>env\<close>.
\<close>

type_synonym addr = nat
type_synonym ctx = nat

datatype error = Error string

type_synonym ('v, 'e) producer = "'e \<Rightarrow> ('v \<times> error option) \<times> 'e"

text \<open>
  \<^verbatim>\<open>type reCached[T any] struct { mu; value; period; updateFunc }\<close>. The lock \<open>mu\<close>
  guards exactly one read (Get) or one write (Update) of \<open>value\<close>; each such critical
  section is one atomic step of the model, so \<open>mu\<close> has no field of its own.
  \<^verbatim>\<open>time.Duration\<close> is a count of nanoseconds.
\<close>

record ('v, 'e) reCached =
  "value" :: 'v
  period :: int
  updateFunc :: "('v, 'e) producer"

text \<open>
  \<^verbatim>\<open>sync.RWMutex\<close>: the number of readers holding it and whether a writer holds it. Go
  also keeps new readers out while a writer waits; that only removes schedules, so every
  property proved here for all schedules holds for Go's.
\<close>

record RWMutex =
  readers :: nat
  writer :: bool

text \<open>
  Where \<^verbatim>\<open>r.Update()\<close> was called from, that is where it returns to: line 34 of New,
  line 51 of updateLoop, line 86 of the goroutine started by GlobalCacheUpdate (which
  carries the goroutine whose \<^verbatim>\<open>wg\<close> it has captured), or the application.
\<close>

datatype caller = FromNew ctx | FromLoop ctx | FromWorker nat | FromUser

datatype 'v result = RCache addr | RValue 'v | RUnit

text \<open>
  A goroutine is the statement of cache.go it executes next, named by function and line,
  with its local variables. \<open>GlobalCacheUpdate_83 wg\<close>, \<open>GlobalCacheUpdate_84 rest wg\<close>
  and \<open>GlobalCacheUpdate_91 wg\<close> hold the local \<^verbatim>\<open>var wg sync.WaitGroup\<close> as its counter;
  \<open>rest\<close> is what the \<^verbatim>\<open>range\<close> loop has still to visit. \<open>GlobalCacheUpdate_76\<close> is the
  deferred \<^verbatim>\<open>RUnlock\<close>, \<open>Worker_85\<close> the deferred \<^verbatim>\<open>wg.Done()\<close>.
  \<open>updateLoop_47 r c d\<close> waits in \<^verbatim>\<open>select\<close> with the timer of \<^verbatim>\<open>time.After\<close> due at \<open>d\<close>.
\<close>

datatype ('v, 'e) goroutine =
    New_29 'v ctx int "('v, 'e) producer"
  | New_35 addr ctx
  | New_38 addr
  | New_39 addr
  | New_40 addr
  | updateLoop_46 addr ctx
  | updateLoop_47 addr ctx int
  | Get_57 addr
  | Update_63 addr caller
  | Update_64 addr 'v "error option" caller
  | GlobalCacheUpdate_75
  | GlobalCacheUpdate_80
  | GlobalCacheUpdate_83 nat
  | GlobalCacheUpdate_84 "addr list" nat
  | GlobalCacheUpdate_91 nat
  | GlobalCacheUpdate_76
  | Worker_85 nat
  | Returned "'v result"

text \<open>
  The world: the application's variables, the allocated caches, the package variables
  \<^verbatim>\<open>globalCaches\<close> and \<^verbatim>\<open>globalCachesMutex\<close>, the contexts whose \<^verbatim>\<open>Done()\<close> channel is
  closed, the monotonic clock in nanoseconds, and the goroutines. \<open>history\<close> is a history
  variable: every statement a goroutine has executed, in order, as the pair of the
  goroutine's index and the statement.
\<close>

record ('v, 'e) world =
  env :: 'e
  heap :: "('v, 'e) reCached list"
  globalCaches :: "addr list"
  globalCachesMutex :: RWMutex
  cancelled :: "ctx list"
  clock :: int
  goroutines :: "('v, 'e) goroutine list"
  history :: "(nat \<times> ('v, 'e) goroutine) list"

definition init :: "'e \<Rightarrow> ('v, 'e) world" where
  "init e = \<lparr>env = e, heap = [], globalCaches = [],
     globalCachesMutex = \<lparr>readers = 0, writer = False\<rparr>,
     cancelled = [], clock = 0, goroutines = [], history = []\<rparr>"

section \<open>Get, Update and New, run by one caller without interference\<close>

text \<open>Line 63: \<^verbatim>\<open>newValue, err := r.updateFunc()\<close>.\<close>

definition call_updateFunc ::
    "addr \<Rightarrow> ('v, 'e) world \<Rightarrow> ('v \<times> error option) \<times> ('v, 'e) world" where
  "call_updateFunc r w =
     (case updateFunc (heap w ! r) (env w) of (res, env') \<Rightarrow> (res, w\<lparr>env := env'\<rparr>))"

text \<open>Lines 64 to 70: return on an error, else store under the write lock.\<close>

definition set_value :: "addr \<Rightarrow> 'v \<Rightarrow> error option \<Rightarrow> ('v, 'e) world \<Rightarrow> ('v, 'e) world" where
  "set_value r newValue err w =
     (if err \<noteq> None then w
      else w\<lparr>heap := (heap w)[r := (heap w ! r)\<lparr>value := newValue\<rparr>]\<rparr>)"

definition Update :: "addr \<Rightarrow> ('v, 'e) world \<Rightarrow> ('v, 'e) world" where
  "Update r w =
     (case call_updateFunc r w of ((newValue, err), w') \<Rightarrow> set_value r newValue err w')"

definition Get :: "addr \<Rightarrow> ('v, 'e) world \<Rightarrow> 'v" where
  "Get r w = value (heap w ! r)"

text \<open>
  New, lines 29 to 42. \<open>zero\<close> is the zero value of \<open>T\<close>, which Go takes from the type
  argument: the composite literal of line 29 leaves \<open>value\<close> at it. Run by one caller,
  Lock, append and Unlock of lines 38 to 40 are the append.
\<close>

definition alloc ::
    "'v \<Rightarrow> int \<Rightarrow> ('v, 'e) producer \<Rightarrow> ('v, 'e) world \<Rightarrow> addr \<times> ('v, 'e) world" where
  "alloc zero p f w =
     (length (heap w), w\<lparr>heap := heap w @ [\<lparr>value = zero, period = p, updateFunc = f\<rparr>]\<rparr>)"

definition go :: "('v, 'e) goroutine \<Rightarrow> ('v, 'e) world \<Rightarrow> ('v, 'e) world" where
  "go g w = w\<lparr>goroutines := goroutines w @ [g]\<rparr>"

definition register :: "addr \<Rightarrow> ('v, 'e) world \<Rightarrow> ('v, 'e) world" where
  "register r w = w\<lparr>globalCaches := globalCaches w @ [r]\<rparr>"

definition New ::
    "'v \<Rightarrow> ctx \<Rightarrow> int \<Rightarrow> ('v, 'e) producer \<Rightarrow> ('v, 'e) world \<Rightarrow> addr \<times> ('v, 'e) world" where
  "New zero c p f w =
     (case alloc zero p f w of (cache, w1) \<Rightarrow>
        (cache, register cache (go (updateLoop_46 cache c) (Update cache w1))))"

section \<open>The goroutines, one statement at a time\<close>

definition jump :: "nat \<Rightarrow> ('v, 'e) goroutine \<Rightarrow> ('v, 'e) world \<Rightarrow> ('v, 'e) world" where
  "jump t g w = w\<lparr>goroutines := (goroutines w)[t := g]\<rparr>"

fun return_to :: "addr \<Rightarrow> caller \<Rightarrow> ('v, 'e) goroutine" where
  "return_to r (FromNew c) = New_35 r c"
| "return_to r (FromLoop c) = updateLoop_46 r c"
| "return_to r (FromWorker t) = Worker_85 t"
| "return_to r FromUser = Returned RUnit"

text \<open>
  \<^verbatim>\<open>wg.Done()\<close> on the counter in the frame of the goroutine that declared \<open>wg\<close>. A
  counter that would go below zero panics in Go; here the step does not exist.
\<close>

fun wg_Done :: "('v, 'e) goroutine \<Rightarrow> ('v, 'e) goroutine option" where
  "wg_Done (GlobalCacheUpdate_83 (Suc n)) = Some (GlobalCacheUpdate_83 n)"
| "wg_Done (GlobalCacheUpdate_84 rest (Suc n)) = Some (GlobalCacheUpdate_84 rest n)"
| "wg_Done (GlobalCacheUpdate_91 (Suc n)) = Some (GlobalCacheUpdate_91 n)"
| "wg_Done _ = None"

definition lock :: "RWMutex \<Rightarrow> RWMutex option" where
  "lock m = (if writer m \<or> 0 < readers m then None else Some (m\<lparr>writer := True\<rparr>))"

definition unlock :: "RWMutex \<Rightarrow> RWMutex option" where
  "unlock m = (if writer m then Some (m\<lparr>writer := False\<rparr>) else None)"

definition rlock :: "RWMutex \<Rightarrow> RWMutex option" where
  "rlock m = (if writer m then None else Some (m\<lparr>readers := Suc (readers m)\<rparr>))"

definition runlock :: "RWMutex \<Rightarrow> RWMutex option" where
  "runlock m = (if 0 < readers m then Some (m\<lparr>readers := readers m - 1\<rparr>) else None)"

definition with_mutex ::
    "(RWMutex \<Rightarrow> RWMutex option) \<Rightarrow> ('v, 'e) world \<Rightarrow> ('v, 'e) world option" where
  "with_mutex f w =
     map_option (\<lambda>m. w\<lparr>globalCachesMutex := m\<rparr>) (f (globalCachesMutex w))"

text \<open>
  One statement of goroutine \<open>t\<close>; \<open>None\<close> when the goroutine is blocked (a lock that is
  held, \<^verbatim>\<open>wg.Wait()\<close> on a counter above zero, a \<^verbatim>\<open>select\<close> whose context is not done) or
  has returned. At \<^verbatim>\<open>select\<close> this is the branch \<^verbatim>\<open>case <-ctx.Done()\<close>. Line 46 evaluates
  \<^verbatim>\<open>time.After(r.period)\<close>: the timer is due at \<^verbatim>\<open>now + d\<close>, and at \<^verbatim>\<open>now\<close> for \<^verbatim>\<open>d <= 0\<close>
  (the runtime caps the sum at the largest int64, 292 years away, which no statement
  here depends on).
\<close>

fun run :: "nat \<Rightarrow> ('v, 'e) goroutine \<Rightarrow> ('v, 'e) world \<Rightarrow> ('v, 'e) world option" where
  "run t (New_29 zero c p f) w =
     (case alloc zero p f w of (cache, w') \<Rightarrow> Some (jump t (Update_63 cache (FromNew c)) w'))"
| "run t (New_35 r c) w = Some (jump t (New_38 r) (go (updateLoop_46 r c) w))"
| "run t (New_38 r) w = map_option (jump t (New_39 r)) (with_mutex lock w)"
| "run t (New_39 r) w = Some (jump t (New_40 r) (register r w))"
| "run t (New_40 r) w = map_option (jump t (Returned (RCache r))) (with_mutex unlock w)"
| "run t (updateLoop_46 r c) w =
     Some (jump t (updateLoop_47 r c (clock w + max 0 (period (heap w ! r)))) w)"
| "run t (updateLoop_47 r c d) w =
     (if c \<in> set (cancelled w) then Some (jump t (Returned RUnit) w) else None)"
| "run t (Get_57 r) w = Some (jump t (Returned (RValue (Get r w))) w)"
| "run t (Update_63 r k) w =
     (case call_updateFunc r w of
        ((newValue, err), w') \<Rightarrow> Some (jump t (Update_64 r newValue err k) w'))"
| "run t (Update_64 r newValue err k) w =
     Some (jump t (return_to r k) (set_value r newValue err w))"
| "run t GlobalCacheUpdate_75 w = map_option (jump t GlobalCacheUpdate_80) (with_mutex rlock w)"
| "run t GlobalCacheUpdate_80 w =
     Some (jump t (GlobalCacheUpdate_83 (length (globalCaches w))) w)"
| "run t (GlobalCacheUpdate_83 wg) w =
     Some (jump t (GlobalCacheUpdate_84 (globalCaches w) wg) w)"
| "run t (GlobalCacheUpdate_84 (c # rest) wg) w =
     Some (jump t (GlobalCacheUpdate_84 rest wg) (go (Update_63 c (FromWorker t)) w))"
| "run t (GlobalCacheUpdate_84 [] wg) w = Some (jump t (GlobalCacheUpdate_91 wg) w)"
| "run t (GlobalCacheUpdate_91 wg) w =
     (if wg = 0 then Some (jump t GlobalCacheUpdate_76 w) else None)"
| "run t GlobalCacheUpdate_76 w = map_option (jump t (Returned RUnit)) (with_mutex runlock w)"
| "run t (Worker_85 p) w =
     (if p < length (goroutines w)
      then map_option (\<lambda>g. jump t (Returned RUnit) (jump p g w)) (wg_Done (goroutines w ! p))
      else None)"
| "run t (Returned x) w = None"

text \<open>
  The branch \<^verbatim>\<open>case <-time.After(r.period)\<close> of the \<^verbatim>\<open>select\<close>, open once the timer is
  due. When the context is done and the timer is due, both branches are open, and Go
  takes either.
\<close>

fun tick :: "nat \<Rightarrow> ('v, 'e) goroutine \<Rightarrow> ('v, 'e) world \<Rightarrow> ('v, 'e) world option" where
  "tick t (updateLoop_47 r c d) w =
     (if d \<le> clock w then Some (jump t (Update_63 r (FromLoop c)) w) else None)"
| "tick t g w = None"

text \<open>
  What the application does: it calls one of the four exported operations in a goroutine
  of its own (Get and Update only on a cache that New has returned), cancels a context,
  or lets time pass. The scheduler runs one statement of one goroutine.
\<close>

datatype ('v, 'e) call =
    CallNew 'v ctx int "('v, 'e) producer"
  | CallGet addr
  | CallUpdate addr
  | CallGlobalCacheUpdate

datatype ('v, 'e) action =
    Call "('v, 'e) call"
  | Run nat
  | Tick nat
  | Cancel ctx
  | Advance nat

fun entry :: "('v, 'e) call \<Rightarrow> ('v, 'e) goroutine" where
  "entry (CallNew zero c p f) = New_29 zero c p f"
| "entry (CallGet r) = Get_57 r"
| "entry (CallUpdate r) = Update_63 r FromUser"
| "entry CallGlobalCacheUpdate = GlobalCacheUpdate_75"

fun callable :: "('v, 'e) call \<Rightarrow> ('v, 'e) world \<Rightarrow> bool" where
  "callable (CallGet r) w = (Returned (RCache r) \<in> set (goroutines w))"
| "callable (CallUpdate r) w = (Returned (RCache r) \<in> set (goroutines w))"
| "callable k w = True"

definition executed :: "nat \<Rightarrow> ('v, 'e) world \<Rightarrow> ('v, 'e) world \<Rightarrow> ('v, 'e) world" where
  "executed t w w' = w'\<lparr>history := history w @ [(t, goroutines w ! t)]\<rparr>"

fun step :: "('v, 'e) action \<Rightarrow> ('v, 'e) world \<Rightarrow> ('v, 'e) world option" where
  "step (Call k) w = (if callable k w then Some (go (entry k) w) else None)"
| "step (Run t) w =
     (if t < length (goroutines w)
      then map_option (executed t w) (run t (goroutines w ! t) w) else None)"
| "step (Tick t) w =
     (if t < length (goroutines w)
      then map_option (executed t w) (tick t (goroutines w ! t) w) else None)"
| "step (Cancel c) w = Some (w\<lparr>cancelled := c # cancelled w\<rparr>)"
| "step (Advance d) w = Some (w\<lparr>clock := clock w + int d\<rparr>)"

fun exec :: "('v, 'e) action list \<Rightarrow> ('v, 'e) world \<Rightarrow> ('v, 'e) world option" where
  "exec [] w = Some w"
| "exec (a # as) w = (case step a w of None \<Rightarrow> None | Some w' \<Rightarrow> exec as w')"

section \<open>What the proofs count\<close>

text \<open>
  A goroutine between \<^verbatim>\<open>RLock\<close> (line 75) and the deferred \<^verbatim>\<open>RUnlock\<close> holds the registry
  lock as a reader; one between \<^verbatim>\<open>Lock\<close> (line 38) and \<^verbatim>\<open>Unlock\<close> (line 40) holds it as the
  writer. The lock's fields agree with the goroutines.
\<close>

fun holds_rlock :: "('v, 'e) goroutine \<Rightarrow> nat" where
  "holds_rlock GlobalCacheUpdate_80 = 1"
| "holds_rlock (GlobalCacheUpdate_83 wg) = 1"
| "holds_rlock (GlobalCacheUpdate_84 rest wg) = 1"
| "holds_rlock (GlobalCacheUpdate_91 wg) = 1"
| "holds_rlock GlobalCacheUpdate_76 = 1"
| "holds_rlock g = 0"

fun holds_lock :: "('v, 'e) goroutine \<Rightarrow> nat" where
  "holds_lock (New_39 r) = 1"
| "holds_lock (New_40 r) = 1"
| "holds_lock g = 0"

definition mutex_inv :: "('v, 'e) world \<Rightarrow> bool" where
  "mutex_inv w \<longleftrightarrow>
     readers (globalCachesMutex w) = sum_list (map holds_rlock (goroutines w))
     \<and> (if writer (globalCachesMutex w) then 1 else 0) = sum_list (map holds_lock (goroutines w))
     \<and> (writer (globalCachesMutex w) \<longrightarrow> readers (globalCachesMutex w) = 0)"

text \<open>
  A goroutine started at line 84 by goroutine \<open>p\<close> is outstanding until its deferred
  \<^verbatim>\<open>wg.Done()\<close> has run. The counter \<open>wg\<close> of \<open>p\<close> is the number of entries the loop has
  still to visit plus the number of outstanding goroutines: \<^verbatim>\<open>wg.Add\<close> of line 80 counted
  every entry before the first was started.
\<close>

fun outstanding :: "nat \<Rightarrow> ('v, 'e) goroutine \<Rightarrow> nat" where
  "outstanding p (Update_63 r (FromWorker q)) = (if q = p then 1 else 0)"
| "outstanding p (Update_64 r v e (FromWorker q)) = (if q = p then 1 else 0)"
| "outstanding p (Worker_85 q) = (if q = p then 1 else 0)"
| "outstanding p g = 0"

fun wg_ok :: "addr list \<Rightarrow> ('v, 'e) goroutine \<Rightarrow> nat \<Rightarrow> bool" where
  "wg_ok w (GlobalCacheUpdate_83 wg) n \<longleftrightarrow> wg = length w \<and> n = 0"
| "wg_ok w (GlobalCacheUpdate_84 rest wg) n \<longleftrightarrow> wg = length rest + n"
| "wg_ok w (GlobalCacheUpdate_91 wg) n \<longleftrightarrow> wg = n"
| "wg_ok w g n \<longleftrightarrow> n = 0"

definition wg_inv :: "('v, 'e) world \<Rightarrow> bool" where
  "wg_inv w \<longleftrightarrow>
     (\<forall>p. if p < length (goroutines w)
          then wg_ok (globalCaches w) (goroutines w ! p) (sum_list (map (outstanding p) (goroutines w)))
          else sum_list (map (outstanding p) (goroutines w)) = 0)"

definition consistent :: "('v, 'e) world \<Rightarrow> bool" where
  "consistent w \<longleftrightarrow> mutex_inv w \<and> wg_inv w"

text \<open>
  The producer invocations (line 63) and the returns of Update (lines 64 to 70) that
  the history holds for the goroutines started by \<open>p\<close>, as the caches concerned, in order.
\<close>

fun call_63 :: "nat \<Rightarrow> ('v, 'e) goroutine \<Rightarrow> addr list" where
  "call_63 p (Update_63 r (FromWorker q)) = (if q = p then [r] else [])"
| "call_63 p g = []"

fun return_64 :: "nat \<Rightarrow> ('v, 'e) goroutine \<Rightarrow> addr list" where
  "return_64 p (Update_64 r v e (FromWorker q)) = (if q = p then [r] else [])"
| "return_64 p g = []"

definition calls_of :: "nat \<Rightarrow> (nat \<times> ('v, 'e) goroutine) list \<Rightarrow> addr list" where
  "calls_of p h = concat (map (call_63 p \<circ> snd) h)"

definition returns_of :: "nat \<Rightarrow> (nat \<times> ('v, 'e) goroutine) list \<Rightarrow> addr list" where
  "returns_of p h = concat (map (return_64 p \<circ> snd) h)"

definition at63 :: "nat \<Rightarrow> (addr \<Rightarrow> bool) \<Rightarrow> ('v, 'e) goroutine \<Rightarrow> nat" where
  "at63 p P g = length (filter P (call_63 p g))"

definition at64 :: "nat \<Rightarrow> (addr \<Rightarrow> bool) \<Rightarrow> ('v, 'e) goroutine \<Rightarrow> nat" where
  "at64 p P g = length (filter P (return_64 p g))"

text \<open>
  The entries for which goroutine \<open>p\<close> of GlobalCacheUpdate has not yet started a
  goroutine, given the registry; \<open>entered\<close> is true from the statement after \<^verbatim>\<open>RLock\<close> on,
  \<open>fresh\<close> is true until the range loop is reached.
\<close>

fun unspawned :: "addr list \<Rightarrow> ('v, 'e) goroutine \<Rightarrow> addr list" where
  "unspawned G GlobalCacheUpdate_80 = G"
| "unspawned G (GlobalCacheUpdate_83 wg) = G"
| "unspawned G (GlobalCacheUpdate_84 rest wg) = rest"
| "unspawned G g = []"

fun entered :: "('v, 'e) goroutine \<Rightarrow> bool" where
  "entered GlobalCacheUpdate_80 = True"
| "entered (GlobalCacheUpdate_83 wg) = True"
| "entered (GlobalCacheUpdate_84 rest wg) = True"
| "entered (GlobalCacheUpdate_91 wg) = True"
| "entered GlobalCacheUpdate_76 = True"
| "entered (Returned x) = True"
| "entered g = False"

fun fresh :: "('v, 'e) goroutine \<Rightarrow> bool" where
  "fresh (GlobalCacheUpdate_84 rest wg) = False"
| "fresh (GlobalCacheUpdate_91 wg) = False"
| "fresh GlobalCacheUpdate_76 = False"
| "fresh (Returned x) = False"
| "fresh g = True"

definition fanout_inv ::
    "addr list \<Rightarrow> nat \<Rightarrow> (addr \<Rightarrow> bool) \<Rightarrow> ('v, 'e) world \<Rightarrow> bool" where
  "fanout_inv G p P w \<longleftrightarrow>
     p < length (goroutines w) \<and> entered (goroutines w ! p)
     \<and> length (filter P (unspawned (globalCaches w) (goroutines w ! p)))
         + sum_list (map (at63 p P) (goroutines w))
         + sum_list (map (at63 p P \<circ> snd) (history w))
       = length (filter P G)
     \<and> sum_list (map (at64 p P \<circ> snd) (history w)) + sum_list (map (at64 p P) (goroutines w))
       = sum_list (map (at63 p P \<circ> snd) (history w))"

definition started :: "('v, 'e) world \<Rightarrow> nat \<Rightarrow> bool" where
  "started w p \<longleftrightarrow> p < length (goroutines w) \<and> \<not> fresh (goroutines w ! p)"

definition hist_inv :: "('v, 'e) world \<Rightarrow> bool" where
  "hist_inv w \<longleftrightarrow>
     (\<forall>p P. \<not> started w p \<longrightarrow>
        sum_list (map (at63 p P \<circ> snd) (history w)) = 0
        \<and> sum_list (map (at64 p P \<circ> snd) (history w)) = 0)"

text \<open>
  A cache is on its way to the registry from its allocation (line 29) to the append of
  line 39. Every allocated cache is either on its way, in one goroutine, or registered,
  once.
\<close>

fun registering :: "addr \<Rightarrow> ('v, 'e) goroutine \<Rightarrow> nat" where
  "registering r (Update_63 r' (FromNew c)) = (if r' = r then 1 else 0)"
| "registering r (Update_64 r' v e (FromNew c)) = (if r' = r then 1 else 0)"
| "registering r (New_35 r' c) = (if r' = r then 1 else 0)"
| "registering r (New_38 r') = (if r' = r then 1 else 0)"
| "registering r (New_39 r') = (if r' = r then 1 else 0)"
| "registering r g = 0"

definition registry_inv :: "('v, 'e) world \<Rightarrow> bool" where
  "registry_inv w \<longleftrightarrow>
     (\<forall>r. count_list (globalCaches w) r + sum_list (map (registering r) (goroutines w))
          = (if r < length (heap w) then 1 else 0))"

text \<open>
  A goroutine is the loop of cache \<open>r\<close> while it executes updateLoop for \<open>r\<close> (line 46, the
  \<^verbatim>\<open>select\<close> of line 47) or an Update that updateLoop has called (lines 63 and 64). A
  goroutine is about to start that loop from the Update that New calls (line 34) to
  \<^verbatim>\<open>go cache.updateLoop(ctx)\<close> (line 35). An allocated cache has at most one such goroutine,
  a cache not yet allocated has none.
\<close>

fun looping :: "addr \<Rightarrow> ('v, 'e) goroutine \<Rightarrow> nat" where
  "looping r (updateLoop_46 r' c) = (if r' = r then 1 else 0)"
| "looping r (updateLoop_47 r' c d) = (if r' = r then 1 else 0)"
| "looping r (Update_63 r' (FromLoop c)) = (if r' = r then 1 else 0)"
| "looping r (Update_64 r' v e (FromLoop c)) = (if r' = r then 1 else 0)"
| "looping r g = 0"

fun starting :: "addr \<Rightarrow> ('v, 'e) goroutine \<Rightarrow> nat" where
  "starting r (Update_63 r' (FromNew c)) = (if r' = r then 1 else 0)"
| "starting r (Update_64 r' v e (FromNew c)) = (if r' = r then 1 else 0)"
| "starting r (New_35 r' c) = (if r' = r then 1 else 0)"
| "starting r g = 0"

definition loops :: "addr \<Rightarrow> ('v, 'e) world \<Rightarrow> nat" where
  "loops r w = sum_list (map (starting r) (goroutines w)) + sum_list (map (looping r) (goroutines w))"

definition loop_inv :: "('v, 'e) world \<Rightarrow> bool" where
  "loop_inv w \<longleftrightarrow> (\<forall>r. loops r w \<le> (if r < length (heap w) then 1 else 0))"

text \<open>
  The value that a statement stores into cache \<open>r\<close>: lines 64 to 70 of an Update of \<open>r\<close>
  whose producer returned a nil error. \<open>stores_of\<close> lists the values stored by the
  statements of a history, in order.
\<close>

fun store_64 :: "addr \<Rightarrow> ('v, 'e) goroutine \<Rightarrow> 'v list" where
  "store_64 r (Update_64 r' v None k) = (if r' = r then [v] else [])"
| "store_64 r g = []"

definition stores_of :: "addr \<Rightarrow> (nat \<times> ('v, 'e) goroutine) list \<Rightarrow> 'v list" where
  "stores_of r h = concat (map (store_64 r \<circ> snd) h)"

text \<open>
  New on cache \<open>r\<close>. The goroutine \<open>t\<close> that runs it has left the Update of line 34 behind
  (\<open>stored\<close>) from line 35 to its return. Before that it is about to invoke the producer,
  with the zero value in the cache (\<open>calling\<close>), or it holds the result \<open>(v, err)\<close> of that
  invocation and then has stored \<open>v\<close> on a nil error and kept the zero value otherwise
  (\<open>storing\<close>). A history is \<open>quiet\<close> when no goroutine other than \<open>t\<close> stores into \<open>r\<close>.
\<close>

fun stored :: "addr \<Rightarrow> ('v, 'e) goroutine \<Rightarrow> bool" where
  "stored r (New_35 r' c) = (r' = r)"
| "stored r (New_38 r') = (r' = r)"
| "stored r (New_39 r') = (r' = r)"
| "stored r (New_40 r') = (r' = r)"
| "stored r (Returned (RCache r')) = (r' = r)"
| "stored r g = False"

definition calling ::
  "'v \<Rightarrow> ('v, 'e) producer \<Rightarrow> nat \<Rightarrow> addr \<Rightarrow> ctx \<Rightarrow> ('v, 'e) world \<Rightarrow> bool" where
  "calling zero f t r c w \<longleftrightarrow>
     t < length (goroutines w) \<and> r < length (heap w) \<and>
     (goroutines w ! t = Update_63 r (FromNew c) \<and> Get r w = zero \<and> updateFunc (heap w ! r) = f
      \<or> (\<exists>v e. goroutines w ! t = Update_64 r v e (FromNew c))
      \<or> stored r (goroutines w ! t))"

definition storing ::
  "'v \<Rightarrow> nat \<Rightarrow> addr \<Rightarrow> ctx \<Rightarrow> 'v \<Rightarrow> error option \<Rightarrow> ('v, 'e) world \<Rightarrow> bool" where
  "storing zero t r c v err w \<longleftrightarrow>
     t < length (goroutines w) \<and> r < length (heap w) \<and>
     (goroutines w ! t = Update_64 r v err (FromNew c) \<and> Get r w = zero
      \<or> stored r (goroutines w ! t) \<and> Get r w = (if err = None then v else zero))"

definition quiet :: "nat \<Rightarrow> addr \<Rightarrow> (nat \<times> ('v, 'e) goroutine) list \<Rightarrow> bool" where
  "quiet t r h \<longleftrightarrow> (\<forall>(u, g) \<in> set h. u \<noteq> t \<longrightarrow> store_64 r g = [])"

text \<open>
  A statement invokes the producer of cache \<open>r\<close> (line 63); it is the invocation of New
  (\<open>first_call\<close>). Any other goroutine that holds \<open>r\<close> knows it (\<open>known\<close>). While New has not
  invoked the producer of the cache it allocated, no other goroutine knows the cache,
  the registry does not hold it and the history has no invocation of its producer.
\<close>

fun invoking :: "addr \<Rightarrow> ('v, 'e) goroutine \<Rightarrow> nat" where
  "invoking r (Update_63 r' k) = (if r' = r then 1 else 0)"
| "invoking r g = 0"

fun first_call :: "addr \<Rightarrow> ('v, 'e) goroutine \<Rightarrow> nat" where
  "first_call r (Update_63 r' (FromNew c)) = (if r' = r then 1 else 0)"
| "first_call r g = 0"

fun known :: "addr \<Rightarrow> ('v, 'e) goroutine \<Rightarrow> nat" where
  "known r (Update_63 r' (FromNew c)) = 0"
| "known r (Update_63 r' k) = (if r' = r then 1 else 0)"
| "known r (Update_64 r' v e k) = (if r' = r then 1 else 0)"
| "known r (New_35 r' c) = (if r' = r then 1 else 0)"
| "known r (New_38 r') = (if r' = r then 1 else 0)"
| "known r (New_39 r') = (if r' = r then 1 else 0)"
| "known r (New_40 r') = (if r' = r then 1 else 0)"
| "known r (updateLoop_46 r' c) = (if r' = r then 1 else 0)"
| "known r (updateLoop_47 r' c d) = (if r' = r then 1 else 0)"
| "known r (Get_57 r') = (if r' = r then 1 else 0)"
| "known r (GlobalCacheUpdate_84 rest wg) = (if r \<in> set rest then 1 else 0)"
| "known r (Returned (RCache r')) = (if r' = r then 1 else 0)"
| "known r g = 0"

definition first_inv :: "addr \<Rightarrow> ('v, 'e) world \<Rightarrow> bool" where
  "first_inv r w \<longleftrightarrow>
     (if r < length (heap w) \<and> sum_list (map (first_call r) (goroutines w)) = 0 then True
      else sum_list (map (first_call r) (goroutines w)) = (if r < length (heap w) then 1 else 0)
        \<and> sum_list (map (known r) (goroutines w)) = 0
        \<and> count_list (globalCaches w) r = 0
        \<and> sum_list (map (invoking r \<circ> snd) (history w)) = 0)"

text \<open>
  A schedule on which goroutine \<open>p\<close> runs GlobalCacheUpdate with nobody else running:
  \<open>p\<close> up to \<^verbatim>\<open>wg.Wait()\<close>, then the \<open>k\<close> goroutines it started (numbered from \<open>n\<close>) one
  after the other, then \<open>p\<close> to its return.
\<close>

definition alone :: "nat \<Rightarrow> nat \<Rightarrow> nat \<Rightarrow> ('v, 'e) action list" where
  "alone p n k =
     [Run p, Run p, Run p] @ replicate k (Run p) @ [Run p]
     @ concat (map (\<lambda>i. [Run i, Run i, Run i]) [n..<n + k]) @ [Run p, Run p]"

section \<open>The producers of cache\_test.go\<close>

text \<open>
  TestUpdateWithError: the environment is the pair of \<^verbatim>\<open>value\<close> and \<^verbatim>\<open>failNextUpdate\<close>.
  TestGlobalCacheUpdate: a counter that every invocation increments and returns.
  \<open>stubborn\<close> returns a value other than zero together with its error;
  \<open>recovering\<close> fails at its first invocation and returns 99 from then on.
\<close>

definition flaky :: "(int, int \<times> bool) producer" where
  "flaky s =
     (case s of (n, failNextUpdate) \<Rightarrow>
        if failNextUpdate then ((0, Some (Error ''update failed'')), s)
        else ((n + 1, None), (n + 1, failNextUpdate)))"

definition counting :: "(int, int) producer" where
  "counting n = ((n + 1, None), n + 1)"

definition stubborn :: "(int, int) producer" where
  "stubborn n = ((42, Some (Error ''update failed'')), n)"

definition recovering :: "(int, bool) producer" where
  "recovering failed =
     (if failed then ((99, None), failed) else ((0, Some (Error ''update failed'')), True))"

definition hour :: int where
  "hour = 3600000000000"

text \<open>
  Schedules: two calls of New followed by a call of GlobalCacheUpdate (goroutine 4); a
  run of that call with its two goroutines (5 and 6) interleaved; the call at
  \<^verbatim>\<open>wg.Wait()\<close>; a cache of period 5 ns whose context is cancelled while its loop waits in
  \<^verbatim>\<open>select\<close>, and one whose context is cancelled after the timer branch was taken; a call
  of GlobalCacheUpdate on one cache whose producer fails.
\<close>

definition two_caches :: "(int, int) action list" where
  "two_caches =
     [Call (CallNew 0 0 hour counting), Run 0, Run 0, Run 0, Run 0, Run 0, Run 0, Run 0,
      Call (CallNew 0 0 hour counting), Run 2, Run 2, Run 2, Run 2, Run 2, Run 2, Run 2,
      Call CallGlobalCacheUpdate]"

definition fan_out :: "(int, int) action list" where
  "fan_out =
     [Run 4, Run 4, Run 4, Run 5, Run 4, Run 6, Run 6, Run 5, Run 4, Run 5, Run 6, Run 4, Run 4]"

definition waiting :: "(int, int) action list" where
  "waiting = two_caches @ [Run 4, Run 4, Run 4, Run 4, Run 4, Run 4]"

definition stopping :: "(int, int) action list" where
  "stopping = [Call (CallNew 0 0 5 counting), Run 0, Run 0, Run 0, Run 0, Run 0, Run 0, Run 0,
     Run 1, Cancel 0]"

definition in_flight :: "(int, int) action list" where
  "in_flight = [Call (CallNew 0 0 5 counting), Run 0, Run 0, Run 0, Run 0, Run 0, Run 0, Run 0,
     Run 1, Advance 5, Tick 1, Cancel 0]"

definition failing_cache :: "(int, int \<times> bool) action list" where
  "failing_cache =
     [Call (CallNew 7 0 hour flaky), Run 0, Run 0, Run 0, Run 0, Run 0, Run 0, Run 0,
      Call CallGlobalCacheUpdate]"

text \<open>
  Schedules with New and its loop interleaved. A cache of period 0 whose loop refreshes
  before New has registered the cache and returned, followed by a call of Get; the same
  with period 5 ns, 5 ns passing and a producer whose first invocation fails. A second
  call of New (goroutine 2) beside the loop of the first cache. A cache whose producer
  always fails and whose context is cancelled while its loop waits in \<^verbatim>\<open>select\<close>.
\<close>

definition early_refresh :: "(int, int) action list" where
  "early_refresh =
     [Call (CallNew 0 0 0 counting), Run 0, Run 0, Run 0, Run 0,
      Run 1, Tick 1, Run 1, Run 1,
      Run 0, Run 0, Run 0, Call (CallGet 0), Run 2]"

definition early_recovery :: "(int, bool) action list" where
  "early_recovery =
     [Call (CallNew 0 0 5 recovering), Run 0, Run 0, Run 0, Run 0,
      Run 1, Advance 5, Tick 1, Run 1, Run 1,
      Run 0, Run 0, Run 0, Call (CallGet 0), Run 2]"

definition second_New :: "(int, int) action list" where
  "second_New =
     [Call (CallNew 0 0 hour counting), Run 0, Run 0, Run 0, Run 0, Run 0, Run 0, Run 0,
      Call (CallNew 7 0 5 counting)]"

definition stopping_failed :: "(int, int) action list" where
  "stopping_failed = [Call (CallNew 0 0 5 stubborn), Run 0, Run 0, Run 0, Run 0, Run 0, Run 0,
     Run 0, Run 1, Cancel 0]"

lemmas model_defs =
  init_def call_updateFunc_def set_value_def Update_def Get_def alloc_def go_def
  register_def New_def jump_def lock_def unlock_def rlock_def runlock_def with_mutex_def
  executed_def

lemmas run_defs =
  model_defs counting_def flaky_def hour_def two_caches_def fan_out_def waiting_def
  stopping_def in_flight_def failing_cache_def

lemmas refresh_defs =
  run_defs stubborn_def recovering_def early_refresh_def early_recovery_def second_New_def
  stopping_failed_def

section \<open>GlobalCacheUpdate run alone\<close>

text \<open>
  From its first statement, with no writer on the registry lock, the goroutine of
  GlobalCacheUpdate and the goroutines it starts run to the return of GlobalCacheUpdate,
  whatever the producers return.
\<close>

lemma exec_append:
  "exec (xs @ ys) w = (case exec xs w of None \<Rightarrow> None | Some w1 \<Rightarrow> exec ys w1)"
  by (induction xs arbitrary: w) (auto split: option.splits)

lemma exec_append_Some:
  "exec xs w = Some w1 \<Longrightarrow> exec ys w1 = r \<Longrightarrow> exec (xs @ ys) w = r"
  by (simp add: exec_append)

lemma spawn_all:
  "p < length (goroutines w) \<Longrightarrow> goroutines w ! p = GlobalCacheUpdate_84 rest wg \<Longrightarrow>
     \<exists>w'. exec (replicate (length rest) (Run p)) w = Some w'
       \<and> goroutines w' = (goroutines w)[p := GlobalCacheUpdate_84 [] wg]
            @ map (\<lambda>c. Update_63 c (FromWorker p)) rest
       \<and> globalCachesMutex w' = globalCachesMutex w"
proof (induction rest arbitrary: w)
  case Nil
  with list_update_id [of "goroutines w" p] show ?case by simp
next
  case (Cons c rest)
  let ?w1 = "executed p w (jump p (GlobalCacheUpdate_84 rest wg) (go (Update_63 c (FromWorker p)) w))"
  from Cons.prems have s: "step (Run p) w = Some ?w1" by simp
  from Cons.prems have "p < length (goroutines ?w1)"
    and "goroutines ?w1 ! p = GlobalCacheUpdate_84 rest wg"
    by (simp_all add: executed_def jump_def go_def)
  from Cons.IH [OF this] obtain w' where
    "exec (replicate (length rest) (Run p)) ?w1 = Some w'"
    "goroutines w' = (goroutines ?w1)[p := GlobalCacheUpdate_84 [] wg]
            @ map (\<lambda>c. Update_63 c (FromWorker p)) rest"
    "globalCachesMutex w' = globalCachesMutex ?w1"
    by blast
  with s Cons.prems show ?case
    by (simp add: executed_def jump_def go_def list_update_append)
qed

lemma workers_done:
  "goroutines w = pre @ map (\<lambda>c. Update_63 c (FromWorker p)) cs \<Longrightarrow> p < length pre \<Longrightarrow>
   pre ! p = GlobalCacheUpdate_91 (m + length cs) \<Longrightarrow> n = length pre \<Longrightarrow>
     \<exists>w'. exec (concat (map (\<lambda>i. [Run i, Run i, Run i]) [n..<n + length cs])) w = Some w'
       \<and> goroutines w' = pre[p := GlobalCacheUpdate_91 m] @ replicate (length cs) (Returned RUnit)
       \<and> globalCachesMutex w' = globalCachesMutex w"
proof (induction cs arbitrary: w pre n)
  case Nil
  with list_update_id [of pre p] show ?case by simp
next
  case (Cons c cs)
  obtain v e w1 where cu: "call_updateFunc c w = ((v, e), w1)"
    by (metis prod.exhaust)
  then have w1: "goroutines w1 = goroutines w" "globalCachesMutex w1 = globalCachesMutex w"
    by (auto simp: call_updateFunc_def split: prod.splits)
  let ?pre = "pre[p := GlobalCacheUpdate_91 (m + length cs)] @ [Returned RUnit]"
  have "\<exists>w3. exec [Run n, Run n, Run n] w = Some w3
      \<and> goroutines w3 = ?pre @ map (\<lambda>c. Update_63 c (FromWorker p)) cs
      \<and> globalCachesMutex w3 = globalCachesMutex w"
    using Cons.prems cu w1
    by (simp add: executed_def jump_def set_value_def nth_append list_update_append)
  then obtain w3 where 3: "exec [Run n, Run n, Run n] w = Some w3"
    and g3: "goroutines w3 = ?pre @ map (\<lambda>c. Update_63 c (FromWorker p)) cs"
    and m3: "globalCachesMutex w3 = globalCachesMutex w"
    by blast
  from Cons.prems have "p < length ?pre" "?pre ! p = GlobalCacheUpdate_91 (m + length cs)"
    "Suc n = length ?pre"
    by (simp_all add: nth_append)
  from Cons.IH [OF g3 this] obtain w' where
    4: "exec (concat (map (\<lambda>i. [Run i, Run i, Run i]) [Suc n..<Suc n + length cs])) w3 = Some w'"
    and g': "goroutines w' = ?pre[p := GlobalCacheUpdate_91 m] @ replicate (length cs) (Returned RUnit)"
    and m': "globalCachesMutex w' = globalCachesMutex w3"
    by blast
  have "[n..<n + length (c # cs)] = n # [Suc n..<Suc n + length cs]"
    by (simp add: upt_conv_Cons del: upt_Suc)
  then have eq: "concat (map (\<lambda>i. [Run i, Run i, Run i]) [n..<n + length (c # cs)])
      = [Run n, Run n, Run n] @ concat (map (\<lambda>i. [Run i, Run i, Run i]) [Suc n..<Suc n + length cs])"
    by simp
  have "exec (concat (map (\<lambda>i. [Run i, Run i, Run i]) [n..<n + length (c # cs)])) w = Some w'"
    unfolding eq by (rule exec_append_Some [OF 3 4])
  moreover from g' Cons.prems(2)
  have "goroutines w' = pre[p := GlobalCacheUpdate_91 m] @ replicate (length (c # cs)) (Returned RUnit)"
    by (simp add: list_update_append)
  ultimately show ?case using m' m3 by (intro exI [of _ w']) simp
qed

lemma GlobalCacheUpdate_returns:
  assumes p: "p < length (goroutines w)" and at: "goroutines w ! p = GlobalCacheUpdate_75"
    and free: "\<not> writer (globalCachesMutex w)"
  shows "\<exists>w'. exec (alone p (length (goroutines w)) (length (globalCaches w))) w = Some w'
    \<and> goroutines w' ! p = Returned RUnit"
proof -
  let ?G = "globalCaches w" and ?gs = "goroutines w"
  let ?m = "(globalCachesMutex w)\<lparr>readers := Suc (readers (globalCachesMutex w))\<rparr>"
  have "\<exists>w3. exec [Run p, Run p, Run p] w = Some w3
      \<and> goroutines w3 = ?gs[p := GlobalCacheUpdate_84 ?G (length ?G)]
      \<and> globalCachesMutex w3 = ?m"
    using assms by (simp add: executed_def jump_def with_mutex_def rlock_def)
  then obtain w3 where a: "exec [Run p, Run p, Run p] w = Some w3"
    and g3: "goroutines w3 = ?gs[p := GlobalCacheUpdate_84 ?G (length ?G)]"
    and m3: "globalCachesMutex w3 = ?m"
    by blast
  from p g3 have "p < length (goroutines w3)"
    "goroutines w3 ! p = GlobalCacheUpdate_84 ?G (length ?G)" by simp_all
  from spawn_all [OF this] g3 m3 obtain w4 where
    b: "exec (replicate (length ?G) (Run p)) w3 = Some w4"
    and g4: "goroutines w4 = ?gs[p := GlobalCacheUpdate_84 [] (length ?G)]
            @ map (\<lambda>c. Update_63 c (FromWorker p)) ?G"
    and m4: "globalCachesMutex w4 = ?m"
    by auto
  have "\<exists>w5. exec [Run p] w4 = Some w5
      \<and> goroutines w5 = ?gs[p := GlobalCacheUpdate_91 (length ?G)]
            @ map (\<lambda>c. Update_63 c (FromWorker p)) ?G
      \<and> globalCachesMutex w5 = ?m"
    using p g4 m4 by (simp add: executed_def jump_def nth_append list_update_append)
  then obtain w5 where c: "exec [Run p] w4 = Some w5"
    and g5: "goroutines w5 = ?gs[p := GlobalCacheUpdate_91 (length ?G)]
            @ map (\<lambda>c. Update_63 c (FromWorker p)) ?G"
    and m5: "globalCachesMutex w5 = ?m"
    by blast
  from p have "p < length (?gs[p := GlobalCacheUpdate_91 (length ?G)])"
    "?gs[p := GlobalCacheUpdate_91 (length ?G)] ! p = GlobalCacheUpdate_91 (0 + length ?G)"
    "length ?gs = length (?gs[p := GlobalCacheUpdate_91 (length ?G)])"
    by simp_all
  from workers_done [OF g5 this] m5 obtain w6 where
    d: "exec (concat (map (\<lambda>i. [Run i, Run i, Run i])
          [length ?gs..<length ?gs + length ?G])) w5 = Some w6"
    and g6: "goroutines w6 = ?gs[p := GlobalCacheUpdate_91 0]
          @ replicate (length ?G) (Returned RUnit)"
    and m6: "globalCachesMutex w6 = ?m"
    by auto
  have "\<exists>w'. exec [Run p, Run p] w6 = Some w' \<and> goroutines w' ! p = Returned RUnit"
    using p g6 m6
    by (simp add: executed_def jump_def with_mutex_def runlock_def nth_append list_update_append)
  then obtain w' where e: "exec [Run p, Run p] w6 = Some w'"
    and r: "goroutines w' ! p = Returned RUnit"
    by blast
  have "exec (alone p (length ?gs) (length ?G)) w = Some w'"
    unfolding alone_def
    by (rule exec_append_Some [OF a] exec_append_Some [OF b] exec_append_Some [OF c]
        exec_append_Some [OF d] e)+
  with r show ?thesis by blast
qed

section \<open>Update\<close>

text \<open>
  C1. When the producer returns a non-nil error, Update leaves the stored value as it
  was, and nothing of the error reaches a caller: Get returns what it returned before,
  heap and registry are the ones before the call, and the goroutine that called Update
  (New, updateLoop, the goroutine of GlobalCacheUpdate, or the application) goes on at its
  return point in an unchanged world. A call of GlobalCacheUpdate runs to its return
  in such a world as in any other.
\<close>

theorem failed_Update_is_silent:
  assumes "updateFunc (heap w ! r) (env w) = ((v, Some e), env')"
  shows "Get r (Update r w) = Get r w \<and> heap (Update r w) = heap w
    \<and> globalCaches (Update r w) = globalCaches w
    \<and> goroutines (Update r w) = goroutines w
    \<and> run t (Update_64 r v (Some e) k) w = Some (jump t (return_to r k) w)
    \<and> (p < length (goroutines w) \<and> goroutines w ! p = GlobalCacheUpdate_75
         \<and> \<not> writer (globalCachesMutex w) \<longrightarrow>
       (\<exists>w'. exec (alone p (length (goroutines w)) (length (globalCaches w))) w = Some w'
          \<and> goroutines w' ! p = Returned RUnit))"
  using assms GlobalCacheUpdate_returns [of p w]
  by (simp add: Update_def call_updateFunc_def set_value_def Get_def)

theorem failed_Update_is_silent_witness:
  "map_option (\<lambda>w. (updateFunc (heap w ! 0) (env w), Get 0 w, Get 0 (Update 0 w)))
     (exec failing_cache (init (1, True)))
     = Some (((0, Some (Error ''update failed'')), (1, True)), 7, 7)
   \<and> map_option (\<lambda>w. (goroutines w ! 2, goroutines w ! 3, Get 0 w))
       (exec (failing_cache @ alone 2 3 1) (init (1, True)))
     = Some (Returned RUnit, Returned RUnit, 7)"
proof -
  let ?w = "the (exec failing_cache (init (1, True)))"
  have e: "exec failing_cache (init (1, True)) = Some ?w"
    by (simp add: model_defs failing_cache_def flaky_def)
  have 1: "updateFunc (heap ?w ! 0) (env ?w) = ((0, Some (Error ''update failed'')), (1, True))"
    by (simp add: model_defs failing_cache_def flaky_def)
  have 2: "2 < length (goroutines ?w) \<and> goroutines ?w ! 2 = GlobalCacheUpdate_75
      \<and> \<not> writer (globalCachesMutex ?w)"
    and 3: "length (goroutines ?w) = 3" "length (globalCaches ?w) = 1"
    by (simp_all add: model_defs failing_cache_def flaky_def)
  note T = failed_Update_is_silent [OF 1, of 2, unfolded 3]
  from T have "Get 0 (Update 0 ?w) = Get 0 ?w" by simp
  moreover from T 2 have "\<exists>w'. exec (alone 2 3 1) ?w = Some w' \<and> goroutines w' ! 2 = Returned RUnit"
    by simp
  ultimately show ?thesis
    by (simp add: model_defs failing_cache_def flaky_def alone_def)
qed

text \<open>
  C2. When the producer returns \<open>(v, nil)\<close>, the value stored after Update is exactly
  \<open>v\<close>; when it returns an error, the stored value is the one before the call.
\<close>

theorem Update_stores_result:
  assumes "r < length (heap w)"
    and "updateFunc (heap w ! r) (env w) = ((v, err), env')"
  shows "Get r (Update r w) = (if err = None then v else Get r w)"
  using assms by (simp add: Update_def call_updateFunc_def set_value_def Get_def)

theorem Update_stores_result_witness:
  "0 < length (heap (snd (New 0 0 hour flaky (init (1, False)))))
   \<and> Get 0 (snd (New 0 0 hour flaky (init (1, False)))) = 2
   \<and> Get 0 (Update 0 (snd (New 0 0 hour flaky (init (1, False))))) = 3"
  using Update_stores_result [of 0 "snd (New 0 0 hour flaky (init (1, False)))" 3 None
      "(3, False)"]
  by (simp add: model_defs flaky_def)

text \<open>
  C10. What Update does depends on the error alone: next to a non-nil error the returned
  value is dropped, so the world after the call is the world before it with the
  producer's own effect on the environment, whatever the value and the error were.
\<close>

theorem Update_drops_value_of_failure:
  assumes "updateFunc (heap w ! r) (env w) = ((v, Some e), env')"
  shows "Update r w = w\<lparr>env := env'\<rparr>
    \<and> set_value r v (Some e) w = set_value r v' (Some e') w"
  using assms by (simp add: Update_def call_updateFunc_def set_value_def)

theorem Update_drops_value_of_failure_witness:
  "updateFunc (heap (snd (New 0 0 hour stubborn (init 5))) ! 0) 5
     = ((42, Some (Error ''update failed'')), 5)
   \<and> Update 0 (snd (New 0 0 hour stubborn (init 5))) = snd (New 0 0 hour stubborn (init 5))
   \<and> Get 0 (Update 0 (snd (New 0 0 hour stubborn (init 5)))) = 0"
  using Update_drops_value_of_failure [of "snd (New 0 0 hour stubborn (init 5))" 0 42
      "Error ''update failed''" 5]
  by (simp add: model_defs stubborn_def)

section \<open>New and Get\<close>

text \<open>
  C4. New does not fail. Run on its own with the registry lock free, the goroutine that
  called New executes, in this order: the allocation with the zero value, one producer
  invocation and the store that keeps the zero value on an error, the start of
  updateLoop, Lock, the append to the registry, Unlock and the return of the cache. The
  result is the world of \<open>New\<close>.
\<close>

theorem New_steps:
  assumes "t < length (goroutines w)"
    and "goroutines w ! t = New_29 zero c p f"
    and "globalCachesMutex w = \<lparr>readers = 0, writer = False\<rparr>"
    and "f (env w) = ((v, err), env')"
    and "cache = length (heap w)"
  shows "fst (New zero c p f w) = cache \<and>
    exec [Run t, Run t, Run t, Run t, Run t, Run t, Run t] w
      = Some ((jump t (Returned (RCache cache)) (snd (New zero c p f w)))
          \<lparr>history := history w @
             [(t, New_29 zero c p f),
              (t, Update_63 cache (FromNew c)),
              (t, Update_64 cache v err (FromNew c)),
              (t, New_35 cache c),
              (t, New_38 cache),
              (t, New_39 cache),
              (t, New_40 cache)]\<rparr>)"
  using assms by (simp add: model_defs list_update_append nth_append)

theorem New_steps_witness:
  "flaky (1, True) = ((0, Some (Error ''update failed'')), (1, True))
   \<and> map_option (\<lambda>w. (Get 0 w, globalCaches w, goroutines w))
        (exec [Run 0, Run 0, Run 0, Run 0, Run 0, Run 0, Run 0]
           (go (New_29 7 0 hour flaky) (init (1, True))))
      = Some (7, [0], [Returned (RCache 0), updateLoop_46 0 0])"
  using New_steps [of 0 "go (New_29 7 0 hour flaky) (init (1, True))" 7 0 hour flaky 0
      "Some (Error ''update failed'')" "(1, True)" 0]
  by (simp add: model_defs flaky_def)

text \<open>
  C9. Get returns the stored value and always has a step. Two goroutines that call Get
  one after the other, with nothing in between, return the same value, and the world
  after them is the world before them but for their own two returns: environment (no
  producer has run), heap (value, period and producer of every cache), registry and
  registry lock are the same, and the only statements executed are the two reads.
\<close>

theorem Get_reads_only:
  assumes "t < length (goroutines w)" and "u < length (goroutines w)" and "t \<noteq> u"
    and "goroutines w ! t = Get_57 r" and "goroutines w ! u = Get_57 r"
  shows "Get r w = value (heap w ! r)
    \<and> exec [Run t, Run u] w
      = Some (w\<lparr>goroutines := (goroutines w)[t := Returned (RValue (Get r w)),
                                               u := Returned (RValue (Get r w))],
               history := history w @ [(t, Get_57 r), (u, Get_57 r)]\<rparr>)"
  using assms by (simp add: Get_def jump_def executed_def)

theorem Get_reads_only_witness:
  "map_option (\<lambda>w. (goroutines w, env w, map value (heap w), globalCaches w))
     (exec [Run 1, Run 2]
        (go (Get_57 0) (go (Get_57 0) (snd (New 0 0 hour flaky (init (1, False)))))))
   = Some ([updateLoop_46 0 0, Returned (RValue 2), Returned (RValue 2)],
           (2, False), [2], [0])"
  using Get_reads_only [of 1 "go (Get_57 0) (go (Get_57 0) (snd (New 0 0 hour flaky (init (1, False)))))" 2 0]
  by (simp add: model_defs flaky_def)

section \<open>The registry\<close>

lemma run_globalCaches:
  "run t g w = Some w' \<Longrightarrow> prefix (globalCaches w) (globalCaches w')"
  by (cases "(t, g, w)" rule: run.cases)
     (auto simp: model_defs split: if_splits prod.splits)

lemma tick_globalCaches:
  "tick t g w = Some w' \<Longrightarrow> globalCaches w' = globalCaches w"
  by (cases "(t, g, w)" rule: tick.cases) (auto simp: jump_def split: if_splits)

lemma step_globalCaches:
  "step a w = Some w' \<Longrightarrow> prefix (globalCaches w) (globalCaches w')"
  by (cases a)
     (auto simp: go_def executed_def dest: run_globalCaches tick_globalCaches split: if_splits)

lemma exec_globalCaches:
  "exec acts w = Some w' \<Longrightarrow> prefix (globalCaches w) (globalCaches w')"
proof (induction acts arbitrary: w)
  case Nil
  then show ?case by simp
next
  case (Cons a acts)
  then obtain w1 where s: "step a w = Some w1" and e: "exec acts w1 = Some w'"
    by (auto split: option.splits)
  from step_globalCaches [OF s] Cons.IH [OF e] show ?case
    by (rule prefix_order.trans)
qed

lemma Update_frame:
  "globalCaches (Update r w) = globalCaches w"
  "goroutines (Update r w) = goroutines w"
  "length (heap (Update r w)) = length (heap w)"
  by (auto simp: Update_def call_updateFunc_def set_value_def split: prod.splits)

lemma New_globalCaches:
  "globalCaches (snd (New zero c p f w)) = globalCaches w @ [fst (New zero c p f w)]"
  by (simp add: New_def alloc_def register_def go_def Update_frame)

text \<open>
  C8. The registry only grows: whatever the goroutines and the application do, the
  registry before is a prefix of the registry after, so no entry is removed or moved and
  every cache stays registered. New appends the cache it returns; Update leaves the
  registry alone (Get returns no world at all).
\<close>

theorem registry_grows:
  assumes "exec acts w = Some w'"
  shows "prefix (globalCaches w) (globalCaches w')
    \<and> set (globalCaches w) \<subseteq> set (globalCaches w')
    \<and> globalCaches (snd (New zero c p f w)) = globalCaches w @ [fst (New zero c p f w)]
    \<and> globalCaches (Update r w) = globalCaches w"
  using exec_globalCaches [OF assms] set_mono_prefix [of "globalCaches w" "globalCaches w'"]
  by (simp add: Update_frame New_globalCaches)

theorem registry_grows_witness:
  "map_option globalCaches
     (exec [Call (CallNew 0 0 hour counting), Run 1, Run 1, Run 1, Run 1, Run 1, Run 1, Run 1,
            Call (CallUpdate 1), Run 3, Run 3]
        (snd (New 0 0 hour counting (init 0))))
   = Some [0, 1]
   \<and> prefix (globalCaches (snd (New 0 0 hour counting (init 0)))) [0, 1]"
proof -
  have e: "exec [Call (CallNew 0 0 hour counting), Run 1, Run 1, Run 1, Run 1, Run 1, Run 1, Run 1,
            Call (CallUpdate 1), Run 3, Run 3]
        (snd (New 0 0 hour counting (init 0)))
    = Some \<lparr>env = 3,
        heap = [\<lparr>value = 1, period = hour, updateFunc = counting\<rparr>,
                \<lparr>value = 3, period = hour, updateFunc = counting\<rparr>],
        globalCaches = [0, 1],
        globalCachesMutex = \<lparr>readers = 0, writer = False\<rparr>,
        cancelled = [], clock = 0,
        goroutines = [updateLoop_46 0 0, Returned (RCache 1), updateLoop_46 1 0, Returned RUnit],
        history = [(1, New_29 0 0 hour counting), (1, Update_63 1 (FromNew 0)),
          (1, Update_64 1 2 None (FromNew 0)), (1, New_35 1 0), (1, New_38 1), (1, New_39 1),
          (1, New_40 1), (3, Update_63 1 FromUser), (3, Update_64 1 3 None FromUser)]\<rparr>"
    by (simp add: model_defs counting_def)
  from registry_grows [OF e, of 0 0 hour counting 0] show ?thesis
    by (simp add: e model_defs counting_def)
qed

section \<open>The registry lock and the wait group\<close>

text \<open>
  Every reachable world is consistent: the fields of the registry lock agree with the
  goroutines that hold it, a writer excludes readers, and every wait group counter is
  the number of entries not yet visited plus the number of goroutines that have not yet
  called \<^verbatim>\<open>wg.Done()\<close>.
\<close>

declare sum_list_eq_0_iff [simp del]

lemma sum_list_map_update:
  fixes f :: "'a \<Rightarrow> 'b::comm_monoid_add"
  shows "i < length xs \<Longrightarrow>
    sum_list (map f (xs[i := y])) + f (xs ! i) = sum_list (map f xs) + f y"
proof (induction xs arbitrary: i)
  case Nil
  then show ?case by simp
next
  case (Cons x xs)
  show ?case
  proof (cases i)
    case 0
    then show ?thesis by (simp add: ac_simps)
  next
    case (Suc j)
    with Cons.prems have "j < length xs" by simp
    from Cons.IH [OF this] Suc show ?thesis
      by (simp add: ac_simps)
  qed
qed

lemma sum_list_map_update_nat:
  fixes f :: "'a \<Rightarrow> nat"
  shows "i < length xs \<Longrightarrow>
    sum_list (map f (xs[i := y])) = sum_list (map f xs) + f y - f (xs ! i)"
  using sum_list_map_update [of i xs f y] by simp

lemma nth_le_sum_list:
  fixes f :: "'a \<Rightarrow> nat"
  shows "i < length xs \<Longrightarrow> f (xs ! i) \<le> sum_list (map f xs)"
  by (induction xs arbitrary: i) (auto simp: nth_Cons split: nat.splits intro: trans_le_add2)

lemma holds_return_to [simp]:
  "holds_rlock (return_to r k) = 0" "holds_lock (return_to r k) = 0"
  by (cases k; simp)+

lemma holds_wg_Done:
  "wg_Done g = Some g' \<Longrightarrow> holds_rlock g' = holds_rlock g \<and> holds_lock g' = holds_lock g"
  by (cases g rule: wg_Done.cases) auto

lemma holds_entry [simp]: "holds_rlock (entry k) = 0" "holds_lock (entry k) = 0"
  by (cases k; simp)+

lemma mutex_inv_run:
  assumes "mutex_inv w" and "t < length (goroutines w)" and "run t (goroutines w ! t) w = Some w'"
  shows "mutex_inv w'"
  using assms
  by (cases "(t, goroutines w ! t, w)" rule: run.cases)
    (auto simp: mutex_inv_def model_defs sum_list_map_update_nat nth_append list_update_append
       nth_list_update
       simp del: sum_list_eq_0_iff dest!: holds_wg_Done split: if_splits prod.splits)

lemma mutex_inv_tick:
  assumes "mutex_inv w" and "t < length (goroutines w)" and "tick t (goroutines w ! t) w = Some w'"
  shows "mutex_inv w'"
  using assms
  by (cases "(t, goroutines w ! t, w)" rule: tick.cases)
    (auto simp: mutex_inv_def jump_def sum_list_map_update_nat
       simp del: sum_list_eq_0_iff split: if_splits)

lemma mutex_excl:
  assumes "mutex_inv w" and "t < length (goroutines w)" and "p < length (goroutines w)"
    and "holds_lock (goroutines w ! t) = 1"
  shows "holds_rlock (goroutines w ! p) = 0"
proof -
  from nth_le_sum_list [OF assms(2), of holds_lock] assms(1,4)
  have "writer (globalCachesMutex w)"
    by (auto simp: mutex_inv_def split: if_splits)
  with assms(1) have "sum_list (map holds_rlock (goroutines w)) = 0"
    by (simp add: mutex_inv_def del: sum_list_eq_0_iff)
  with nth_le_sum_list [OF assms(3), of holds_rlock] show ?thesis by simp
qed

lemma outstanding_return_to [simp]:
  "outstanding p (return_to r k :: ('v, 'e) goroutine)
     = outstanding p (Update_63 r k :: ('v, 'e) goroutine)"
  by (cases k) simp_all

lemma outstanding_Update_64 [simp]:
  "outstanding p (Update_64 r v e k :: ('v, 'e) goroutine)
     = outstanding p (Update_63 r k :: ('v, 'e) goroutine)"
  by (cases k) simp_all

lemma outstanding_wg_Done:
  "wg_Done g = Some g' \<Longrightarrow> outstanding p g' = 0 \<and> outstanding p g = 0"
  by (cases g rule: wg_Done.cases) auto

lemma outstanding_entry [simp]: "outstanding p (entry k) = 0"
  by (cases k) simp_all

lemma wg_ok_return_to [simp]:
  "wg_ok G (return_to r k) n \<longleftrightarrow> n = 0"
  by (cases k) simp_all

lemma wg_ok_wg_Done:
  "wg_Done g = Some g' \<Longrightarrow> wg_ok G g (Suc n) \<Longrightarrow> wg_ok G g' n"
  by (cases g rule: wg_Done.cases) auto

lemma wg_ok_registry:
  "holds_rlock g = 0 \<Longrightarrow> wg_ok G g n \<longleftrightarrow> n = 0"
  by (cases "(G, g, n)" rule: wg_ok.cases) simp_all

lemma wg_ok_entry [simp]: "wg_ok G (entry k) n \<longleftrightarrow> n = 0"
  by (cases k) simp_all

lemma wg_inv_Done:
  assumes inv: "wg_inv w" and t: "t < length (goroutines w)"
    and at: "goroutines w ! t = Worker_85 q" and q: "q < length (goroutines w)"
    and d: "wg_Done (goroutines w ! q) = Some z"
  shows "wg_inv (jump t (Returned RUnit) (jump q z w))"
  unfolding wg_inv_def
proof
  fix p
  let ?gs = "goroutines w"
  let ?w' = "jump t (Returned RUnit) (jump q z w)"
  have neq: "q \<noteq> t" using at d by auto
  have gs': "goroutines ?w' = ?gs[q := z, t := Returned RUnit]"
    and G: "globalCaches ?w' = globalCaches w"
    by (simp_all add: jump_def)
  have "sum_list (map (outstanding p) (?gs[q := z])) + outstanding p (?gs ! q)
      = sum_list (map (outstanding p) ?gs) + outstanding p z"
    using q by (rule sum_list_map_update)
  with outstanding_wg_Done [OF d, of p]
  have 1: "sum_list (map (outstanding p) (?gs[q := z])) = sum_list (map (outstanding p) ?gs)"
    by simp
  from sum_list_map_update [of t "?gs[q := z]" "outstanding p" "Returned RUnit"] t 1 neq at
  have 2: "sum_list (map (outstanding p) (goroutines ?w')) + (if q = p then 1 else 0)
      = sum_list (map (outstanding p) ?gs)"
    by (simp add: gs')
  from inv have old:
    "if p < length ?gs then wg_ok (globalCaches w) (?gs ! p) (sum_list (map (outstanding p) ?gs))
     else sum_list (map (outstanding p) ?gs) = 0"
    by (simp add: wg_inv_def)
  consider (self) "p = t" | (parent) "p = q" | (other) "p \<noteq> t" "p \<noteq> q"
    by blast
  then show "if p < length (goroutines ?w')
      then wg_ok (globalCaches ?w') (goroutines ?w' ! p)
             (sum_list (map (outstanding p) (goroutines ?w')))
      else sum_list (map (outstanding p) (goroutines ?w')) = 0"
  proof cases
    case self
    with old t at 2 neq show ?thesis by (simp add: gs' G)
  next
    case parent
    with 2 have "sum_list (map (outstanding p) ?gs)
        = Suc (sum_list (map (outstanding p) (goroutines ?w')))" by simp
    with old q parent wg_ok_wg_Done [OF d]
    have "wg_ok (globalCaches w) z (sum_list (map (outstanding p) (goroutines ?w')))"
      by simp
    with parent q neq show ?thesis by (simp add: gs' G)
  next
    case other
    with old 2 show ?thesis by (simp add: gs' G split: if_splits)
  qed
qed

lemma wg_inv_run:
  assumes "mutex_inv w" and "wg_inv w" and "t < length (goroutines w)"
    and "run t (goroutines w ! t) w = Some w'"
  shows "wg_inv w'"
proof (cases "\<exists>q. goroutines w ! t = Worker_85 q")
  case True
  with assms(2-4) show ?thesis
    by (auto dest: wg_inv_Done split: if_splits)
next
  case False
  show ?thesis
  unfolding wg_inv_def
proof
  fix p
  from assms(2) have old:
    "\<And>q. q < length (goroutines w) \<Longrightarrow>
       wg_ok (globalCaches w) (goroutines w ! q) (sum_list (map (outstanding q) (goroutines w)))"
    "\<And>q. \<not> q < length (goroutines w) \<Longrightarrow> sum_list (map (outstanding q) (goroutines w)) = 0"
    by (simp_all add: wg_inv_def)
  consider (self) "p = t" | (other) "p \<noteq> t" "p < length (goroutines w)"
    | (out) "\<not> p < length (goroutines w)"
    using assms(3) by blast
  then show "if p < length (goroutines w')
          then wg_ok (globalCaches w') (goroutines w' ! p) (sum_list (map (outstanding p) (goroutines w')))
          else sum_list (map (outstanding p) (goroutines w')) = 0"
  proof cases
    case self
    show ?thesis
      using assms(3,4) old(1) [of t] self False
      by (cases "(t, goroutines w ! t, w)" rule: run.cases)
        (auto simp: model_defs sum_list_map_update_nat nth_append list_update_append
          nth_list_update
          simp del: sum_list_eq_0_iff split: prod.splits if_splits)
  next
    case other
    show ?thesis 
      using assms(3,4) old(1) [of t] old(1) [of p] other False
        mutex_excl [OF assms(1) assms(3), of p]
      by (cases "(t, goroutines w ! t, w)" rule: run.cases)
        (auto simp: model_defs sum_list_map_update_nat nth_append list_update_append
          nth_list_update wg_ok_registry
          simp del: sum_list_eq_0_iff split: prod.splits if_splits)
  next
    case out
    show ?thesis
      using assms(3,4) old(1) [of t] old(2) [of p] out False
      by (cases "(t, goroutines w ! t, w)" rule: run.cases)
        (auto simp: model_defs sum_list_map_update_nat nth_append list_update_append
          nth_list_update
          simp del: sum_list_eq_0_iff split: prod.splits if_splits)
  qed
qed
qed

lemma wg_inv_tick:
  assumes "wg_inv w" and "t < length (goroutines w)" and "tick t (goroutines w ! t) w = Some w'"
  shows "wg_inv w'"
  unfolding wg_inv_def
proof
  fix p
  from assms(1) have old:
    "if p < length (goroutines w)
     then wg_ok (globalCaches w) (goroutines w ! p) (sum_list (map (outstanding p) (goroutines w)))
     else sum_list (map (outstanding p) (goroutines w)) = 0"
    by (simp add: wg_inv_def)
  show "if p < length (goroutines w')
     then wg_ok (globalCaches w') (goroutines w' ! p) (sum_list (map (outstanding p) (goroutines w')))
     else sum_list (map (outstanding p) (goroutines w')) = 0"
    using assms(2,3) old
    by (cases "(t, goroutines w ! t, w)" rule: tick.cases)
      (auto simp: jump_def sum_list_map_update_nat nth_list_update
         simp del: sum_list_eq_0_iff split: if_splits)
qed

lemma consistent_history [simp]: "consistent (w\<lparr>history := h\<rparr>) = consistent w"
  by (simp add: consistent_def mutex_inv_def wg_inv_def)

lemma consistent_cancelled [simp]: "consistent (w\<lparr>cancelled := x\<rparr>) = consistent w"
  by (simp add: consistent_def mutex_inv_def wg_inv_def)

lemma consistent_clock [simp]: "consistent (w\<lparr>clock := y\<rparr>) = consistent w"
  by (simp add: consistent_def mutex_inv_def wg_inv_def)

lemma consistent_init: "consistent (init e)"
  by (simp add: consistent_def mutex_inv_def wg_inv_def init_def)

lemma consistent_Call: "consistent w \<Longrightarrow> consistent (go (entry k) w)"
  unfolding consistent_def mutex_inv_def wg_inv_def
proof (intro conjI allI, goal_cases)
  case 1
  then show ?case by (auto simp: go_def)
next
  case 2
  then show ?case by (auto simp: go_def)
next
  case 3
  then show ?case by (auto simp: go_def)
next
  case (4 p)
  then have "if p < length (goroutines w)
     then wg_ok (globalCaches w) (goroutines w ! p) (sum_list (map (outstanding p) (goroutines w)))
     else sum_list (map (outstanding p) (goroutines w)) = 0"
    by blast
  then show ?case
    by (simp add: go_def nth_append del: sum_list_eq_0_iff split: if_splits)
qed

lemma consistent_step:
  assumes "consistent w" and "step a w = Some w'"
  shows "consistent w'"
proof (cases a)
  case (Call k)
  with assms show ?thesis
    by (auto simp: consistent_Call split: if_splits)
next
  case (Run t)
  with assms obtain z where t: "t < length (goroutines w)"
    and z: "run t (goroutines w ! t) w = Some z" and w': "w' = executed t w z"
    by (auto split: if_splits)
  from assms(1) mutex_inv_run [OF _ t z] wg_inv_run [OF _ _ t z] show ?thesis
    by (simp add: w' executed_def) (simp add: consistent_def)
next
  case (Tick t)
  with assms obtain z where t: "t < length (goroutines w)"
    and z: "tick t (goroutines w ! t) w = Some z" and w': "w' = executed t w z"
    by (auto split: if_splits)
  from assms(1) mutex_inv_tick [OF _ t z] wg_inv_tick [OF _ t z] show ?thesis
    by (simp add: w' executed_def) (simp add: consistent_def)
next
  case (Cancel c)
  with assms show ?thesis by auto
next
  case (Advance d)
  with assms show ?thesis by auto
qed

lemma consistent_exec: "consistent w \<Longrightarrow> exec acts w = Some w' \<Longrightarrow> consistent w'"
  by (induction acts arbitrary: w) (auto split: option.splits dest: consistent_step)

lemma outstanding_parent:
  assumes "consistent w" and "t < length (goroutines w)"
    and "0 < outstanding p (goroutines w ! t)"
  shows "p < length (goroutines w)
    \<and> (\<exists>rest wg. goroutines w ! p = GlobalCacheUpdate_84 rest (Suc wg)
                  \<or> goroutines w ! p = GlobalCacheUpdate_91 (Suc wg))"
proof -
  let ?n = "sum_list (map (outstanding p) (goroutines w))"
  from nth_le_sum_list [OF assms(2), of "outstanding p"] assms(3) have n: "0 < ?n" by simp
  from assms(1) have
    "if p < length (goroutines w) then wg_ok (globalCaches w) (goroutines w ! p) ?n else ?n = 0"
    by (simp add: consistent_def wg_inv_def)
  with n have p: "p < length (goroutines w)"
    and ok: "wg_ok (globalCaches w) (goroutines w ! p) ?n"
    by (auto split: if_splits)
  from ok n show ?thesis
    by (cases "(globalCaches w, goroutines w ! p, ?n)" rule: wg_ok.cases)
      (auto simp: p gr0_conv_Suc)
qed

text \<open>
  C6, as the code has it. GlobalCacheUpdate takes the registry lock as a reader in its
  first statement and gives it back in its last, the deferred \<^verbatim>\<open>RUnlock\<close>. So whenever a
  goroutine it has started is about to invoke the producer of an entry's Update, is
  about to store its result, or has not yet called \<^verbatim>\<open>wg.Done()\<close>, the goroutine of
  GlobalCacheUpdate is in its range loop or blocked in \<^verbatim>\<open>wg.Wait()\<close> on a counter above
  zero, and the registry lock is held by a reader and by no writer.
\<close>

theorem GlobalCacheUpdate_holds_read_lock:
  assumes reach: "exec acts (init e) = Some w"
    and t: "t < length (goroutines w)"
    and at: "goroutines w ! t = Update_63 r (FromWorker p)
      \<or> goroutines w ! t = Update_64 r v err (FromWorker p)
      \<or> goroutines w ! t = Worker_85 p"
  shows "p < length (goroutines w)
    \<and> (\<exists>rest wg. goroutines w ! p = GlobalCacheUpdate_84 rest (Suc wg)
                  \<or> goroutines w ! p = GlobalCacheUpdate_91 (Suc wg))
    \<and> 0 < readers (globalCachesMutex w) \<and> \<not> writer (globalCachesMutex w)"
proof -
  from consistent_exec [OF consistent_init reach] have c: "consistent w" .
  from at have "0 < outstanding p (goroutines w ! t)" by auto
  from outstanding_parent [OF c t this]
  have p: "p < length (goroutines w)"
    and g: "\<exists>rest wg. goroutines w ! p = GlobalCacheUpdate_84 rest (Suc wg)
                  \<or> goroutines w ! p = GlobalCacheUpdate_91 (Suc wg)"
    by simp_all
  from g have "holds_rlock (goroutines w ! p) = 1" by auto
  with nth_le_sum_list [OF p, of holds_rlock] c
  have "0 < readers (globalCachesMutex w)"
    by (simp add: consistent_def mutex_inv_def)
  moreover from this c have "\<not> writer (globalCachesMutex w)"
    by (auto simp: consistent_def mutex_inv_def)
  ultimately show ?thesis using p g by simp
qed

theorem GlobalCacheUpdate_holds_read_lock_witness:
  "map_option (\<lambda>w. (goroutines w ! 5, goroutines w ! 4, readers (globalCachesMutex w),
                     writer (globalCachesMutex w)))
     (exec (two_caches @ [Run 4, Run 4, Run 4, Run 4]) (init 0))
   = Some (Update_63 0 (FromWorker 4), GlobalCacheUpdate_84 [1] 2, 1, False)"
proof -
  have e: "exec (two_caches @ [Run 4, Run 4, Run 4, Run 4]) (init 0)
      = Some (the (exec (two_caches @ [Run 4, Run 4, Run 4, Run 4]) (init 0)))"
    by (simp add: run_defs)
  have 1: "5 < length (goroutines (the (exec (two_caches @ [Run 4, Run 4, Run 4, Run 4]) (init 0))))"
    and 2: "goroutines (the (exec (two_caches @ [Run 4, Run 4, Run 4, Run 4]) (init 0))) ! 5
        = Update_63 0 (FromWorker 4)"
    by (simp_all add: run_defs)
  from GlobalCacheUpdate_holds_read_lock [OF e 1, of 0 4] 2 e show ?thesis
    by (simp add: run_defs)
qed

text \<open>
  C6 as stated fails. With two caches registered and GlobalCacheUpdate blocked in
  \<^verbatim>\<open>wg.Wait()\<close>, the lock has one reader; the Update of the first entry then invokes its
  producer (the environment goes from 2 to 3) and stores 3, the reader still there; and
  \<^verbatim>\<open>wg.Wait()\<close> has no step while the counter is 2.
\<close>

theorem Update_under_read_lock:
  "map_option (\<lambda>w. (readers (globalCachesMutex w), goroutines w ! 4, goroutines w ! 5, env w))
     (exec waiting (init 0))
   = Some (1, GlobalCacheUpdate_91 2, Update_63 0 (FromWorker 4), 2)
   \<and> map_option (\<lambda>w. (readers (globalCachesMutex w), goroutines w ! 4, goroutines w ! 5, env w))
     (exec (waiting @ [Run 5]) (init 0))
   = Some (1, GlobalCacheUpdate_91 2, Update_64 0 3 None (FromWorker 4), 3)
   \<and> map_option (\<lambda>w. (readers (globalCachesMutex w), goroutines w ! 4, goroutines w ! 5, Get 0 w))
     (exec (waiting @ [Run 5, Run 5]) (init 0))
   = Some (1, GlobalCacheUpdate_91 2, Worker_85 4, 3)
   \<and> exec (waiting @ [Run 5, Run 5, Run 4]) (init 0) = None"
  by (simp add: run_defs)

section \<open>GlobalCacheUpdate\<close>

lemma registering_return_to [simp]:
  "registering x (return_to r k :: ('v, 'e) goroutine)
     = registering x (Update_63 r k :: ('v, 'e) goroutine)"
  by (cases k) simp_all

lemma registering_Update_64 [simp]:
  "registering x (Update_64 r v e k :: ('v, 'e) goroutine)
     = registering x (Update_63 r k :: ('v, 'e) goroutine)"
  by (cases k) simp_all

lemma registering_wg_Done:
  "wg_Done g = Some g' \<Longrightarrow> registering r g' = 0 \<and> registering r g = 0"
  by (cases g rule: wg_Done.cases) auto

lemma registering_entry [simp]: "registering r (entry k) = 0"
  by (cases k) simp_all

lemma length_set_value [simp]: "length (heap (set_value r v e w)) = length (heap w)"
  by (simp add: set_value_def)

lemma registry_inv_run:
  assumes "registry_inv w" and "t < length (goroutines w)"
    and "run t (goroutines w ! t) w = Some w'"
  shows "registry_inv w'"
  unfolding registry_inv_def
proof
  fix r
  from assms(1) have old:
    "count_list (globalCaches w) r + sum_list (map (registering r) (goroutines w))
          = (if r < length (heap w) then 1 else 0)"
    "count_list (globalCaches w) (length (heap w))
       + sum_list (map (registering (length (heap w))) (goroutines w)) = 0"
    by (simp_all add: registry_inv_def)
  show "count_list (globalCaches w') r + sum_list (map (registering r) (goroutines w'))
          = (if r < length (heap w') then 1 else 0)"
  proof (cases "\<exists>q. goroutines w ! t = Worker_85 q")
    case True
    then obtain q where at: "goroutines w ! t = Worker_85 q" ..
    with assms(3) obtain z where q: "q < length (goroutines w)"
      and d: "wg_Done (goroutines w ! q) = Some z"
      and w': "w' = jump t (Returned RUnit) (jump q z w)"
      by (auto split: if_splits)
    have neq: "q \<noteq> t" using at d by auto
    from q assms(2) neq at registering_wg_Done [OF d, of r] old(1) show ?thesis
      by (simp add: w' jump_def sum_list_map_update_nat)
  next
    case False
    with assms(2,3) old nth_le_sum_list [OF assms(2), of "registering r"] show ?thesis
      by (cases "(t, goroutines w ! t, w)" rule: run.cases)
        (auto simp: model_defs sum_list_map_update_nat nth_append list_update_append
          split: prod.splits if_splits)
  qed
qed

lemma registry_inv_frame [simp]:
  "registry_inv (w\<lparr>cancelled := x\<rparr>) = registry_inv w"
  "registry_inv (w\<lparr>clock := y\<rparr>) = registry_inv w"
  "registry_inv (w\<lparr>history := h\<rparr>) = registry_inv w"
  "registry_inv (go (entry k) w) = registry_inv w"
  by (simp_all add: registry_inv_def go_def)

lemma registry_inv_tick:
  assumes "registry_inv w" and "t < length (goroutines w)"
    and "tick t (goroutines w ! t) w = Some w'"
  shows "registry_inv w'"
  unfolding registry_inv_def
proof
  fix r
  from assms(1) have
    "count_list (globalCaches w) r + sum_list (map (registering r) (goroutines w))
          = (if r < length (heap w) then 1 else 0)"
    by (simp add: registry_inv_def)
  with assms(2,3)
  show "count_list (globalCaches w') r + sum_list (map (registering r) (goroutines w'))
          = (if r < length (heap w') then 1 else 0)"
    by (cases "(t, goroutines w ! t, w)" rule: tick.cases)
      (auto simp: jump_def sum_list_map_update_nat split: if_splits)
qed

lemma registry_inv_step:
  assumes "registry_inv w" and "step a w = Some w'"
  shows "registry_inv w'"
proof (cases a)
  case (Call k)
  with assms show ?thesis by (auto split: if_splits)
next
  case (Run t)
  with assms(2) obtain z where t: "t < length (goroutines w)"
    and z: "run t (goroutines w ! t) w = Some z" and w': "w' = executed t w z"
    by (auto split: if_splits)
  from registry_inv_run [OF assms(1) t z] show ?thesis
    by (simp add: w' executed_def)
next
  case (Tick t)
  with assms(2) obtain z where t: "t < length (goroutines w)"
    and z: "tick t (goroutines w ! t) w = Some z" and w': "w' = executed t w z"
    by (auto split: if_splits)
  from registry_inv_tick [OF assms(1) t z] show ?thesis
    by (simp add: w' executed_def)
next
  case (Cancel c)
  with assms show ?thesis by auto
next
  case (Advance d)
  with assms show ?thesis by auto
qed

lemma registry_inv_exec:
  "registry_inv w \<Longrightarrow> exec acts w = Some w' \<Longrightarrow> registry_inv w'"
  by (induction acts arbitrary: w) (auto split: option.splits dest: registry_inv_step)

lemma distinct_count_list: "(\<And>x. count_list xs x \<le> 1) \<Longrightarrow> distinct xs"
proof (induction xs)
  case Nil
  then show ?case by simp
next
  case (Cons a xs)
  from Cons.prems [of a] have "count_list xs a = 0" by simp
  then have "a \<notin> set xs" by (simp add: count_list_0_iff)
  moreover have "count_list xs x \<le> 1" for x
    using Cons.prems [of x] by (simp split: if_splits)
  ultimately show ?case using Cons.IH by simp
qed

lemma registry_distinct:
  assumes "exec acts (init e) = Some w"
  shows "distinct (globalCaches w) \<and> (\<forall>r \<in> set (globalCaches w). r < length (heap w))"
proof -
  have "registry_inv (init e)" by (simp add: registry_inv_def init_def)
  from registry_inv_exec [OF this assms] have inv: "registry_inv w" .
  have "count_list (globalCaches w) x \<le> 1" for x
    using inv by (auto simp: registry_inv_def dest!: spec [of _ x] split: if_splits)
  then have "distinct (globalCaches w)" by (rule distinct_count_list)
  moreover have "r < length (heap w)" if "r \<in> set (globalCaches w)" for r
  proof (rule ccontr)
    assume "\<not> r < length (heap w)"
    with inv have "count_list (globalCaches w) r = 0" by (auto simp: registry_inv_def dest!: spec [of _ r])
    with that show False by (simp add: count_list_0_iff)
  qed
  ultimately show ?thesis by blast
qed

lemma at_return_to [simp]:
  "at63 p P (return_to r k) = 0" "at64 p P (return_to r k) = 0"
  by (cases k; simp add: at63_def at64_def)+

lemma at64_Update_64 [simp]:
  "at64 p P (Update_64 r v e k :: ('v, 'e) goroutine) = at63 p P (Update_63 r k :: ('v, 'e) goroutine)"
  by (cases k) (simp_all add: at63_def at64_def)

lemma at63_Update_64 [simp]: "at63 p P (Update_64 r v e k) = 0"
  by (simp add: at63_def)

lemma at64_Update_63 [simp]: "at64 p P (Update_63 r k) = 0"
  by (simp add: at64_def)

lemma at_wg_Done:
  "wg_Done g = Some g' \<Longrightarrow>
     at63 p P g' = 0 \<and> at63 p P g = 0 \<and> at64 p P g' = 0 \<and> at64 p P g = 0
     \<and> unspawned G g' = unspawned G g \<and> entered g' \<and> entered g \<and> fresh g' = fresh g"
  by (cases g rule: wg_Done.cases) (auto simp: at63_def at64_def)

lemma at_entry [simp]: "at63 p P (entry k) = 0" "at64 p P (entry k) = 0"
  by (cases k; simp add: at63_def at64_def)+

lemma at_simps [simp]:
  "at63 p P (New_29 z c d f) = 0" "at64 p P (New_29 z c d f) = 0"
  "at63 p P (New_35 r c) = 0" "at64 p P (New_35 r c) = 0"
  "at63 p P (New_38 r) = 0" "at64 p P (New_38 r) = 0"
  "at63 p P (New_39 r) = 0" "at64 p P (New_39 r) = 0"
  "at63 p P (New_40 r) = 0" "at64 p P (New_40 r) = 0"
  "at63 p P (updateLoop_46 r c) = 0" "at64 p P (updateLoop_46 r c) = 0"
  "at63 p P (updateLoop_47 r c dl) = 0" "at64 p P (updateLoop_47 r c dl) = 0"
  "at63 p P (Get_57 r) = 0" "at64 p P (Get_57 r) = 0"
  "at63 p P GlobalCacheUpdate_75 = 0" "at64 p P GlobalCacheUpdate_75 = 0"
  "at63 p P GlobalCacheUpdate_80 = 0" "at64 p P GlobalCacheUpdate_80 = 0"
  "at63 p P (GlobalCacheUpdate_83 wg) = 0" "at64 p P (GlobalCacheUpdate_83 wg) = 0"
  "at63 p P (GlobalCacheUpdate_84 rest wg) = 0" "at64 p P (GlobalCacheUpdate_84 rest wg) = 0"
  "at63 p P (GlobalCacheUpdate_91 wg) = 0" "at64 p P (GlobalCacheUpdate_91 wg) = 0"
  "at63 p P GlobalCacheUpdate_76 = 0" "at64 p P GlobalCacheUpdate_76 = 0"
  "at63 p P (Worker_85 q) = 0" "at64 p P (Worker_85 q) = 0"
  "at63 p P (Returned x) = 0" "at64 p P (Returned x) = 0"
  "at63 p P (Update_63 r (FromWorker q)) = (if q = p \<and> P r then 1 else 0)"
  "at63 p P (Update_63 r (FromNew c)) = 0"
  "at63 p P (Update_63 r (FromLoop c)) = 0"
  "at63 p P (Update_63 r FromUser) = 0"
  by (simp_all add: at63_def at64_def)

lemma entered_unlocked:
  "entered g \<Longrightarrow> holds_rlock g = 0 \<Longrightarrow> unspawned G g = []"
  by (cases g) simp_all

lemma fanout_inv_run:
  assumes "mutex_inv w" and "fanout_inv G p P w" and "t < length (goroutines w)"
    and "run t (goroutines w ! t) w = Some w'"
  shows "fanout_inv G p P (executed t w w')"
proof (cases "\<exists>q. goroutines w ! t = Worker_85 q")
  case True
  then obtain q where at: "goroutines w ! t = Worker_85 q" ..
  with assms(4) obtain z where q: "q < length (goroutines w)"
    and d: "wg_Done (goroutines w ! q) = Some z"
    and w': "w' = jump t (Returned RUnit) (jump q z w)"
    by (auto split: if_splits)
  have neq: "q \<noteq> t" using at d by auto
  have pt: "p \<noteq> t" using assms(2) at by (auto simp: fanout_inv_def)
  note z = at_wg_Done [OF d, of p P "globalCaches w"]
  have "sum_list (map (at63 p P) (goroutines w')) = sum_list (map (at63 p P) (goroutines w))"
    and "sum_list (map (at64 p P) (goroutines w')) = sum_list (map (at64 p P) (goroutines w))"
    using q assms(3) neq at z
    by (simp_all add: w' jump_def sum_list_map_update_nat)
  moreover have "unspawned (globalCaches w') (goroutines w' ! p)
      = unspawned (globalCaches w) (goroutines w ! p)"
    and "entered (goroutines w' ! p) = entered (goroutines w ! p)"
    using q assms(3) neq pt at z
    by (auto simp: w' jump_def nth_list_update)
  ultimately show ?thesis
    using assms(2) at by (simp add: fanout_inv_def executed_def w' jump_def)
next
  case False
  consider (self) "p = t" | (other) "p \<noteq> t" by blast
  then show ?thesis
  proof cases
    case self
    show ?thesis
      using assms(2-4) self False
      by (cases "(t, goroutines w ! t, w)" rule: run.cases)
        (auto simp: fanout_inv_def model_defs sum_list_map_update_nat nth_append
          list_update_append nth_list_update split: prod.splits if_splits)
  next
    case other
    show ?thesis
      using assms(2-4) other False mutex_excl [OF assms(1) assms(3), of p]
        nth_le_sum_list [OF assms(3), of "at63 p P"] nth_le_sum_list [OF assms(3), of "at64 p P"]
      by (cases "(t, goroutines w ! t, w)" rule: run.cases)
        (auto simp: fanout_inv_def model_defs sum_list_map_update_nat nth_append
          list_update_append nth_list_update entered_unlocked split: prod.splits if_splits)
  qed
qed

lemma fanout_inv_tick:
  assumes "fanout_inv G p P w" and "t < length (goroutines w)"
    and "tick t (goroutines w ! t) w = Some w'"
  shows "fanout_inv G p P (executed t w w')"
  using assms
  by (cases "(t, goroutines w ! t, w)" rule: tick.cases)
    (auto simp: fanout_inv_def executed_def jump_def sum_list_map_update_nat nth_list_update
      split: if_splits)

lemma fanout_inv_step:
  assumes "consistent w" and "fanout_inv G p P w" and "step a w = Some w'"
  shows "fanout_inv G p P w'"
proof (cases a)
  case (Call k)
  with assms(2,3) show ?thesis
    by (auto simp: fanout_inv_def go_def nth_append split: if_splits)
next
  case (Run t)
  with assms(3) obtain z where t: "t < length (goroutines w)"
    and z: "run t (goroutines w ! t) w = Some z" and w': "w' = executed t w z"
    by (auto split: if_splits)
  from assms(1) have "mutex_inv w" by (simp add: consistent_def)
  from fanout_inv_run [OF this assms(2) t z] show ?thesis by (simp add: w')
next
  case (Tick t)
  with assms(3) obtain z where t: "t < length (goroutines w)"
    and z: "tick t (goroutines w ! t) w = Some z" and w': "w' = executed t w z"
    by (auto split: if_splits)
  from fanout_inv_tick [OF assms(2) t z] show ?thesis by (simp add: w')
next
  case (Cancel c)
  with assms(2,3) show ?thesis by (auto simp: fanout_inv_def)
next
  case (Advance d)
  with assms(2,3) show ?thesis by (auto simp: fanout_inv_def)
qed

lemma fanout_inv_exec:
  "consistent w \<Longrightarrow> fanout_inv G p P w \<Longrightarrow> exec acts w = Some w' \<Longrightarrow> fanout_inv G p P w'"
proof (induction acts arbitrary: w)
  case Nil
  then show ?case by simp
next
  case (Cons a acts)
  from Cons.prems(3) obtain w1 where s: "step a w = Some w1" and e: "exec acts w1 = Some w'"
    by (auto split: option.splits)
  from Cons.IH [OF consistent_step [OF Cons.prems(1) s] fanout_inv_step [OF Cons.prems(1,2) s] e]
  show ?case .
qed

lemma fresh_return_to [simp]: "fresh (return_to r k) \<longleftrightarrow> k \<noteq> FromUser"
  by (cases k) simp_all

lemma started_run:
  assumes "started w p" and "t < length (goroutines w)"
    and "run t (goroutines w ! t) w = Some w'"
  shows "started w' p"
proof (cases "\<exists>q. goroutines w ! t = Worker_85 q")
  case True
  then obtain q where at: "goroutines w ! t = Worker_85 q" ..
  with assms(3) obtain z where q: "q < length (goroutines w)"
    and d: "wg_Done (goroutines w ! q) = Some z"
    and w': "w' = jump t (Returned RUnit) (jump q z w)"
    by (auto split: if_splits)
  from assms(1,2) q at_wg_Done [OF d, of p "\<lambda>_. True" "[]"] show ?thesis
    by (auto simp: started_def w' jump_def nth_list_update)
next
  case False
  with assms show ?thesis
    by (cases "(t, goroutines w ! t, w)" rule: run.cases)
      (auto simp: started_def model_defs nth_append nth_list_update
        split: prod.splits if_splits)
qed

lemma started_step:
  assumes "started w p" and "step a w = Some w'"
  shows "started w' p"
proof (cases a)
  case (Call k)
  with assms show ?thesis
    by (auto simp: started_def go_def nth_append split: if_splits)
next
  case (Run t)
  with assms(2) obtain z where t: "t < length (goroutines w)"
    and z: "run t (goroutines w ! t) w = Some z" and w': "w' = executed t w z"
    by (auto split: if_splits)
  from started_run [OF assms(1) t z] show ?thesis
    by (simp add: w' executed_def started_def)
next
  case (Tick t)
  with assms show ?thesis
    by (cases "(t, goroutines w ! t, w)" rule: tick.cases)
      (auto simp: started_def executed_def jump_def nth_list_update split: if_splits)
next
  case (Cancel c)
  with assms show ?thesis by (auto simp: started_def)
next
  case (Advance d)
  with assms show ?thesis by (auto simp: started_def)
qed

lemma at_le_outstanding:
  "at63 p P g \<le> outstanding p g" "at64 p P g \<le> outstanding p g"
  by (cases "(p, g)" rule: outstanding.cases; simp add: at63_def at64_def)+

lemma history_step:
  assumes "step a w = Some w'"
  shows "history w' = history w
    \<or> (\<exists>t < length (goroutines w). history w' = history w @ [(t, goroutines w ! t)])"
proof (cases a)
  case (Run t)
  with assms show ?thesis by (auto simp: executed_def split: if_splits)
next
  case (Tick t)
  with assms show ?thesis by (auto simp: executed_def split: if_splits)
qed (use assms in \<open>auto simp: go_def split: if_splits\<close>)

lemma hist_inv_step:
  assumes "consistent w" and "hist_inv w" and "step a w = Some w'"
  shows "hist_inv w'"
  unfolding hist_inv_def
proof (intro allI impI)
  fix p P
  assume "\<not> started w' p"
  with started_step [OF _ assms(3)] have ns: "\<not> started w p" by blast
  with assms(2) have old: "sum_list (map (at63 p P \<circ> snd) (history w)) = 0"
    "sum_list (map (at64 p P \<circ> snd) (history w)) = 0"
    by (simp_all add: hist_inv_def)
  from history_step [OF assms(3)]
  show "sum_list (map (at63 p P \<circ> snd) (history w')) = 0
      \<and> sum_list (map (at64 p P \<circ> snd) (history w')) = 0"
  proof
    assume "history w' = history w"
    with old show ?thesis by simp
  next
    assume "\<exists>t < length (goroutines w). history w' = history w @ [(t, goroutines w ! t)]"
    then obtain t where t: "t < length (goroutines w)"
      and h: "history w' = history w @ [(t, goroutines w ! t)]" by blast
    have "outstanding p (goroutines w ! t) = 0"
    proof (rule ccontr)
      assume "outstanding p (goroutines w ! t) \<noteq> 0"
      with outstanding_parent [OF assms(1) t, of p] have "started w p"
        by (auto simp: started_def)
      with ns show False ..
    qed
    with at_le_outstanding [of p P "goroutines w ! t"] old show ?thesis
      by (simp add: h)
  qed
qed

lemma hist_inv_init: "hist_inv (init e)"
  by (simp add: hist_inv_def init_def)

lemma reachable_inv:
  "consistent w \<Longrightarrow> hist_inv w \<Longrightarrow> exec acts w = Some w' \<Longrightarrow> consistent w' \<and> hist_inv w'"
proof (induction acts arbitrary: w)
  case Nil
  then show ?case by simp
next
  case (Cons a acts)
  from Cons.prems(3) obtain w1 where s: "step a w = Some w1" and e: "exec acts w1 = Some w'"
    by (auto split: option.splits)
  from Cons.IH [OF consistent_step [OF Cons.prems(1) s] hist_inv_step [OF Cons.prems(1,2) s] e]
  show ?case .
qed

lemma sum_list_le:
  fixes f g :: "'a \<Rightarrow> nat"
  shows "(\<And>x. f x \<le> g x) \<Longrightarrow> sum_list (map f xs) \<le> sum_list (map g xs)"
  by (induction xs) (auto intro: add_mono)

lemma no_outstanding:
  assumes "sum_list (map (outstanding p) gs) = 0"
  shows "sum_list (map (at63 p P) gs) = 0" "sum_list (map (at64 p P) gs) = 0"
  using sum_list_le [of "at63 p P" "outstanding p" gs, OF at_le_outstanding(1)]
    sum_list_le [of "at64 p P" "outstanding p" gs, OF at_le_outstanding(2)] assms
  by simp_all

lemma sum_at63: "sum_list (map (at63 p P \<circ> snd) h) = length (filter P (calls_of p h))"
  by (induction h) (simp_all add: calls_of_def at63_def)

lemma sum_at64: "sum_list (map (at64 p P \<circ> snd) h) = length (filter P (returns_of p h))"
  by (induction h) (simp_all add: returns_of_def at64_def)

lemma mset_eq_filter:
  assumes "\<And>P. length (filter P xs) = length (filter P ys)"
  shows "mset xs = mset ys"
proof (rule multiset_eqI)
  fix x
  from assms [of "(=) x"] show "count (mset xs) x = count (mset ys) x"
    by (simp add: count_mset count_list_eq_length_filter)
qed

lemma fan_out_accounts:
  assumes reach: "exec acts0 (init e) = Some w"
    and p: "p < length (goroutines w)"
    and at: "goroutines w ! p = GlobalCacheUpdate_75"
    and run: "exec (Run p # acts) w = Some w'"
    and fin: "goroutines w' ! p = GlobalCacheUpdate_76 \<or> goroutines w' ! p = Returned RUnit"
  shows "mset (calls_of p (history w')) = mset (globalCaches w)
    \<and> length (calls_of p (history w')) = length (globalCaches w)
    \<and> mset (returns_of p (history w')) = mset (globalCaches w)
    \<and> sum_list (map (outstanding p) (goroutines w')) = 0"
proof -
  from reachable_inv [OF consistent_init hist_inv_init reach]
  have c: "consistent w" and h: "hist_inv w" by simp_all
  from run obtain w1 where s: "step (Run p) w = Some w1" and e: "exec acts w1 = Some w'"
    by (auto split: option.splits)
  from s p at have g1: "goroutines w1 = (goroutines w)[p := GlobalCacheUpdate_80]"
    and G1: "globalCaches w1 = globalCaches w"
    and h1: "history w1 = history w @ [(p, GlobalCacheUpdate_75)]"
    by (auto simp: executed_def jump_def with_mutex_def)
  have c1: "consistent w1" by (rule consistent_step [OF c s])
  have "\<not> started w p" using at by (simp add: started_def)
  with h have h0: "\<And>P. sum_list (map (at63 p P \<circ> snd) (history w)) = 0"
    "\<And>P. sum_list (map (at64 p P \<circ> snd) (history w)) = 0"
    by (simp_all add: hist_inv_def)
  from c1 p have "sum_list (map (outstanding p) (goroutines w1)) = 0"
    by (auto simp: consistent_def wg_inv_def g1 dest!: spec [of _ p])
  note z1 = no_outstanding [OF this]
  have k1: "fanout_inv (globalCaches w) p P w1" for P
    using p h0 [of P] z1 [of P] by (simp add: fanout_inv_def g1 G1 h1)
  have k: "fanout_inv (globalCaches w) p P w'" for P
    by (rule fanout_inv_exec [OF c1 k1 e])
  from reachable_inv [OF c h run] have c': "consistent w'" by simp
  from k [of "\<lambda>_. True"] have p': "p < length (goroutines w')" by (simp add: fanout_inv_def)
  from c' p' fin have o: "sum_list (map (outstanding p) (goroutines w')) = 0"
    by (auto simp: consistent_def wg_inv_def dest!: spec [of _ p])
  note z' = no_outstanding [OF o]
  have calls: "length (filter P (calls_of p (history w'))) = length (filter P (globalCaches w))"
    and rets: "length (filter P (returns_of p (history w'))) = length (filter P (globalCaches w))"
    for P
    using k [of P] z' [of P] fin by (auto simp: fanout_inv_def sum_at63 sum_at64)
  from calls have "mset (calls_of p (history w')) = mset (globalCaches w)"
    by (rule mset_eq_filter)
  moreover from rets have "mset (returns_of p (history w')) = mset (globalCaches w)"
    by (rule mset_eq_filter)
  moreover from calls [of "\<lambda>_. True"]
  have "length (calls_of p (history w')) = length (globalCaches w)" by simp
  ultimately show ?thesis using o by simp
qed

text \<open>
  C5. Let goroutine \<open>p\<close> be about to execute the first statement of GlobalCacheUpdate in
  a reachable world with \<open>N\<close> registered caches. When no writer holds the registry lock,
  \<open>p\<close> and the goroutines it starts can run to the return of GlobalCacheUpdate. And on
  every schedule that begins with the first statement of \<open>p\<close>, once \<open>p\<close> is past
  \<^verbatim>\<open>wg.Wait()\<close> the goroutines it started have invoked the producer of every registered
  cache once and of no cache twice (\<open>N\<close> invocations), every one of these Updates has
  returned, and every goroutine has called \<^verbatim>\<open>wg.Done()\<close>.
\<close>

theorem GlobalCacheUpdate_fans_out:
  assumes reach: "exec acts0 (init e) = Some w"
    and p: "p < length (goroutines w)"
    and at: "goroutines w ! p = GlobalCacheUpdate_75"
  shows "(\<not> writer (globalCachesMutex w) \<longrightarrow>
       (\<exists>w'. exec (alone p (length (goroutines w)) (length (globalCaches w))) w = Some w'
          \<and> goroutines w' ! p = Returned RUnit))
    \<and> (\<forall>acts w'. exec (Run p # acts) w = Some w' \<longrightarrow>
         (goroutines w' ! p = GlobalCacheUpdate_76 \<or> goroutines w' ! p = Returned RUnit) \<longrightarrow>
           mset (calls_of p (history w')) = mset (globalCaches w)
           \<and> distinct (calls_of p (history w'))
           \<and> length (calls_of p (history w')) = length (globalCaches w)
           \<and> mset (returns_of p (history w')) = mset (globalCaches w)
           \<and> sum_list (map (outstanding p) (goroutines w')) = 0)"
proof (rule conjI)
  from GlobalCacheUpdate_returns [OF p at]
  show "\<not> writer (globalCachesMutex w) \<longrightarrow>
       (\<exists>w'. exec (alone p (length (goroutines w)) (length (globalCaches w))) w = Some w'
          \<and> goroutines w' ! p = Returned RUnit)"
    by (rule impI)
next
  from registry_distinct [OF reach] have d: "distinct (globalCaches w)" ..
  have "mset (calls_of p (history w')) = mset (globalCaches w)
           \<and> distinct (calls_of p (history w'))
           \<and> length (calls_of p (history w')) = length (globalCaches w)
           \<and> mset (returns_of p (history w')) = mset (globalCaches w)
           \<and> sum_list (map (outstanding p) (goroutines w')) = 0"
    if run: "exec (Run p # acts) w = Some w'"
      and fin: "goroutines w' ! p = GlobalCacheUpdate_76 \<or> goroutines w' ! p = Returned RUnit"
    for acts w'
  proof -
    note acc = fan_out_accounts [OF reach p at run fin]
    from acc have "mset (calls_of p (history w')) = mset (globalCaches w)" ..
    from mset_eq_imp_distinct_iff [OF this] d have "distinct (calls_of p (history w'))"
      by simp
    with acc show ?thesis by simp
  qed
  then show "\<forall>acts w'. exec (Run p # acts) w = Some w' \<longrightarrow>
         (goroutines w' ! p = GlobalCacheUpdate_76 \<or> goroutines w' ! p = Returned RUnit) \<longrightarrow>
           mset (calls_of p (history w')) = mset (globalCaches w)
           \<and> distinct (calls_of p (history w'))
           \<and> length (calls_of p (history w')) = length (globalCaches w)
           \<and> mset (returns_of p (history w')) = mset (globalCaches w)
           \<and> sum_list (map (outstanding p) (goroutines w')) = 0"
    by (intro allI impI)
qed

theorem GlobalCacheUpdate_fans_out_witness:
  "map_option (\<lambda>w. (goroutines w ! 4, globalCaches w)) (exec two_caches (init 0))
     = Some (GlobalCacheUpdate_75, [0, 1])
   \<and> map_option (\<lambda>w. (goroutines w ! 4, mset (calls_of 4 (history w)),
                       mset (returns_of 4 (history w)), map value (heap w)))
        (exec (Run 4 # fan_out) (the (exec two_caches (init 0))))
     = Some (Returned RUnit, {#0, 1#}, {#0, 1#}, [3, 4])
   \<and> map_option (\<lambda>w. goroutines w ! 4) (exec (alone 4 5 2) (the (exec two_caches (init 0))))
     = Some (Returned RUnit)"
proof -
  have e0: "exec two_caches (init 0) = Some (the (exec two_caches (init 0)))"
    by (simp add: run_defs)
  have e1: "exec (Run 4 # fan_out) (the (exec two_caches (init 0)))
      = Some (the (exec (Run 4 # fan_out) (the (exec two_caches (init 0)))))"
    by (simp add: run_defs)
  have 1: "4 < length (goroutines (the (exec two_caches (init 0))))"
    and 2: "goroutines (the (exec two_caches (init 0))) ! 4 = GlobalCacheUpdate_75"
    and 3: "goroutines (the (exec (Run 4 # fan_out) (the (exec two_caches (init 0))))) ! 4
          = Returned RUnit"
    and 4: "\<not> writer (globalCachesMutex (the (exec two_caches (init 0))))"
    and 5: "length (goroutines (the (exec two_caches (init 0)))) = 5"
      "globalCaches (the (exec two_caches (init 0))) = [0, 1]"
    by (simp_all add: run_defs)
  note T = GlobalCacheUpdate_fans_out [OF e0 1 2, unfolded 5]
  have l: "length [0, 1 :: nat] = 2" by simp
  note A = T [THEN conjunct1, rule_format, OF 4, unfolded l]
  note T2 = T [THEN conjunct2, rule_format, OF e1 disjI2 [OF 3]]
  from T2
  have B: "mset (calls_of 4 (history (the (exec (Run 4 # fan_out) (the (exec two_caches (init 0)))))))
      = mset [0, 1]
    \<and> mset (returns_of 4 (history (the (exec (Run 4 # fan_out) (the (exec two_caches (init 0)))))))
      = mset [0, 1]"
    by simp
  have C: "map_option (\<lambda>w. (goroutines w ! 4, globalCaches w)) (exec two_caches (init 0))
     = Some (GlobalCacheUpdate_75, [0, 1])"
    by (subst e0) (simp add: 2 5)
  have D: "map_option (\<lambda>w. (goroutines w ! 4, mset (calls_of 4 (history w)),
                       mset (returns_of 4 (history w)), map value (heap w)))
        (exec (Run 4 # fan_out) (the (exec two_caches (init 0))))
     = Some (Returned RUnit, {#0, 1#}, {#0, 1#}, [3, 4])"
    using B 3 by (subst e1) (simp add: run_defs)
  from A C D show ?thesis by auto
qed

section \<open>updateLoop and cancellation\<close>

lemma Returned_step:
  assumes "t < length (goroutines w)" and "goroutines w ! t = Returned x"
    and "step a w = Some w'"
  shows "t < length (goroutines w') \<and> goroutines w' ! t = Returned x
    \<and> (history w' = history w \<or> (\<exists>u g. u \<noteq> t \<and> history w' = history w @ [(u, g)]))"
proof (cases a)
  case (Call k)
  with assms show ?thesis by (auto simp: go_def nth_append split: if_splits)
next
  case (Run u)
  with assms(3) obtain z where u: "u < length (goroutines w)"
    and z: "run u (goroutines w ! u) w = Some z" and w': "w' = executed u w z"
    by (auto split: if_splits)
  from z assms(2) have ut: "u \<noteq> t" by auto
  from assms(1,2) u ut z have "t < length (goroutines z) \<and> goroutines z ! t = Returned x"
    by (cases "(u, goroutines w ! u, w)" rule: run.cases)
      (auto simp: model_defs nth_append nth_list_update split: prod.splits if_splits)
  with ut show ?thesis by (auto simp: w' executed_def)
next
  case (Tick u)
  with assms(3) obtain z where u: "u < length (goroutines w)"
    and z: "tick u (goroutines w ! u) w = Some z" and w': "w' = executed u w z"
    by (auto split: if_splits)
  from z assms(2) have ut: "u \<noteq> t" by auto
  from assms(1,2) u ut z have "t < length (goroutines z) \<and> goroutines z ! t = Returned x"
    by (cases "(u, goroutines w ! u, w)" rule: tick.cases)
      (auto simp: jump_def nth_list_update split: if_splits)
  with ut show ?thesis by (auto simp: w' executed_def)
next
  case (Cancel c)
  with assms show ?thesis by auto
next
  case (Advance d)
  with assms show ?thesis by auto
qed

lemma Returned_exec:
  "t < length (goroutines w) \<Longrightarrow> goroutines w ! t = Returned x \<Longrightarrow> exec acts w = Some w' \<Longrightarrow>
     goroutines w' ! t = Returned x
     \<and> (\<exists>h. history w' = history w @ h \<and> t \<notin> fst ` set h)"
proof (induction acts arbitrary: w)
  case Nil
  then show ?case by simp
next
  case (Cons a acts)
  from Cons.prems(3) obtain w1 where s: "step a w = Some w1" and e: "exec acts w1 = Some w'"
    by (auto split: option.splits)
  from Returned_step [OF Cons.prems(1,2) s]
  have 1: "t < length (goroutines w1)" "goroutines w1 ! t = Returned x"
    and h1: "\<exists>h. history w1 = history w @ h \<and> t \<notin> fst ` set h"
    by auto
  from Cons.IH [OF 1 e] h1 show ?case by auto
qed

lemma looping_return_to [simp]:
  "looping x (return_to r k :: ('v, 'e) goroutine)
     = (case k of FromLoop c \<Rightarrow> if r = x then 1 else 0 | _ \<Rightarrow> 0)"
  "starting x (return_to r k :: ('v, 'e) goroutine)
     = (case k of FromNew c \<Rightarrow> if r = x then 1 else 0 | _ \<Rightarrow> 0)"
  by (cases k; simp)+

lemma looping_Update [simp]:
  "looping x (Update_63 r k :: ('v, 'e) goroutine)
     = (case k of FromLoop c \<Rightarrow> if r = x then 1 else 0 | _ \<Rightarrow> 0)"
  "looping x (Update_64 r v e k :: ('v, 'e) goroutine)
     = (case k of FromLoop c \<Rightarrow> if r = x then 1 else 0 | _ \<Rightarrow> 0)"
  "starting x (Update_63 r k :: ('v, 'e) goroutine)
     = (case k of FromNew c \<Rightarrow> if r = x then 1 else 0 | _ \<Rightarrow> 0)"
  "starting x (Update_64 r v e k :: ('v, 'e) goroutine)
     = (case k of FromNew c \<Rightarrow> if r = x then 1 else 0 | _ \<Rightarrow> 0)"
  by (cases k; simp)+

lemma looping_wg_Done:
  "wg_Done g = Some g' \<Longrightarrow>
     looping r g' = 0 \<and> looping r g = 0 \<and> starting r g' = 0 \<and> starting r g = 0"
  by (cases g rule: wg_Done.cases) auto

lemma looping_entry [simp]: "looping r (entry k) = 0" "starting r (entry k) = 0"
  by (cases k; simp)+

lemma loops_run:
  assumes "t < length (goroutines w)" and "run t (goroutines w ! t) w = Some w'"
  shows "if r < length (heap w) then r < length (heap w') \<and> loops r w' \<le> loops r w
     else loops r w' \<le> loops r w + (if r < length (heap w') then 1 else 0)"
proof (cases "\<exists>q. goroutines w ! t = Worker_85 q")
  case True
  then obtain q where at: "goroutines w ! t = Worker_85 q" ..
  with assms(2) obtain z where q: "q < length (goroutines w)"
    and d: "wg_Done (goroutines w ! q) = Some z"
    and w': "w' = jump t (Returned RUnit) (jump q z w)"
    by (auto split: if_splits)
  have neq: "q \<noteq> t" using at d by auto
  from q assms(1) neq at looping_wg_Done [OF d, of r] show ?thesis
    by (simp add: w' jump_def loops_def sum_list_map_update_nat)
next
  case False
  with assms nth_le_sum_list [OF assms(1), of "starting r"]
    nth_le_sum_list [OF assms(1), of "looping r"]
  show ?thesis
    by (cases "(t, goroutines w ! t, w)" rule: run.cases)
      (auto simp: model_defs loops_def sum_list_map_update_nat nth_append list_update_append
        split: prod.splits if_splits caller.splits)
qed


lemma loops_tick:
  assumes "t < length (goroutines w)" and "tick t (goroutines w ! t) w = Some w'"
  shows "heap w' = heap w \<and> loops r w' = loops r w"
  using assms nth_le_sum_list [OF assms(1), of "starting r"]
    nth_le_sum_list [OF assms(1), of "looping r"]
  by (cases "(t, goroutines w ! t, w)" rule: tick.cases)
    (auto simp: model_defs loops_def sum_list_map_update_nat split: if_splits)

lemma loops_executed [simp]:
  "loops r (executed t w w') = loops r w'" "heap (executed t w w') = heap w'"
  by (simp_all add: loops_def executed_def)

lemma loops_step:
  assumes "step a w = Some w'"
  shows "if r < length (heap w) then r < length (heap w') \<and> loops r w' \<le> loops r w
     else loops r w' \<le> loops r w + (if r < length (heap w') then 1 else 0)"
proof (cases a)
  case (Call k)
  with assms show ?thesis by (auto simp: loops_def go_def split: if_splits)
next
  case (Run t)
  with assms obtain z where "t < length (goroutines w)" "run t (goroutines w ! t) w = Some z"
    "w' = executed t w z"
    by (auto split: if_splits)
  with loops_run [of t w z r] show ?thesis by simp
next
  case (Tick t)
  with assms obtain z where "t < length (goroutines w)" "tick t (goroutines w ! t) w = Some z"
    "w' = executed t w z"
    by (auto split: if_splits)
  with loops_tick [of t w z r] show ?thesis by simp
next
  case (Cancel c)
  with assms show ?thesis by (auto simp: loops_def)
next
  case (Advance d)
  with assms show ?thesis by (auto simp: loops_def)
qed

lemma loop_inv_step:
  assumes "loop_inv w" and "step a w = Some w'"
  shows "loop_inv w'"
  unfolding loop_inv_def
proof
  fix r
  from assms(1) have "loops r w \<le> (if r < length (heap w) then 1 else 0)"
    by (simp add: loop_inv_def)
  with loops_step [OF assms(2), of r]
  show "loops r w' \<le> (if r < length (heap w') then 1 else 0)"
    by (auto split: if_splits)
qed

lemma loop_inv_exec:
  "loop_inv w \<Longrightarrow> exec acts w = Some w' \<Longrightarrow> loop_inv w'"
proof (induction acts arbitrary: w)
  case Nil
  then show ?case by simp
next
  case (Cons a acts)
  then show ?case by (auto split: option.splits dest: loop_inv_step)
qed

lemma loop_inv_init: "loop_inv (init e)"
  by (simp add: loop_inv_def loops_def init_def)

lemma stores_of_simps [simp]:
  "stores_of r [] = []" "stores_of r (x # h) = store_64 r (snd x) @ stores_of r h"
  "stores_of r (h @ h') = stores_of r h @ stores_of r h'"
  by (simp_all add: stores_of_def)

lemma Get_run:
  assumes "t < length (goroutines w)" and "run t (goroutines w ! t) w = Some w'"
    and "r < length (heap w)"
  shows "Get r w' = last (Get r w # store_64 r (goroutines w ! t))"
proof (cases "\<exists>q. goroutines w ! t = Worker_85 q")
  case True
  with assms show ?thesis by (auto simp: model_defs split: if_splits)
next
  case False
  with assms show ?thesis
    by (cases "(t, goroutines w ! t, w)" rule: run.cases)
      (auto simp: model_defs nth_append nth_list_update split: prod.splits if_splits)
qed

lemma Get_tick:
  assumes "tick t g w = Some w'"
  shows "Get r w' = Get r w \<and> store_64 r g = []"
  using assms by (cases "(t, g, w)" rule: tick.cases) (auto simp: model_defs split: if_splits)

lemma Get_executed [simp]: "Get r (executed t w w') = Get r w'"
  by (simp add: Get_def executed_def)

text \<open>One step of a world in which no goroutine is the loop of cache \<^verbatim>\<open>r\<close> or is about to
  start it: still none is, the statement executed is not one of the loop, and the value is the
  last one stored by the statement.\<close>

lemma stopped_step:
  assumes "step a w = Some w'" and "r < length (heap w)" and "loops r w = 0"
  shows "r < length (heap w') \<and> loops r w' = 0 \<and>
    (\<exists>h. history w' = history w @ h
       \<and> (\<forall>(u, g) \<in> set h. looping r g = 0 \<and> starting r g = 0)
       \<and> Get r w' = last (Get r w # stores_of r h))"
proof -
  from loops_step [OF assms(1), of r] assms(2,3)
  have 1: "r < length (heap w')" "loops r w' = 0" by auto
  have "\<exists>h. history w' = history w @ h
      \<and> (\<forall>(u, g) \<in> set h. looping r g = 0 \<and> starting r g = 0)
      \<and> Get r w' = last (Get r w # stores_of r h)"
  proof (cases a)
    case (Call k)
    with assms(1) have "history w' = history w @ []" "Get r w' = Get r w"
      by (auto simp: go_def Get_def split: if_splits)
    then show ?thesis by (intro exI [of _ "[]"]) simp
  next
    case (Run t)
    with assms(1) obtain z where t: "t < length (goroutines w)"
      and z: "run t (goroutines w ! t) w = Some z" and w': "w' = executed t w z"
      by (auto split: if_splits)
    from nth_le_sum_list [OF t, of "looping r"] nth_le_sum_list [OF t, of "starting r"]
      assms(3)
    have "looping r (goroutines w ! t) = 0 \<and> starting r (goroutines w ! t) = 0"
      by (simp add: loops_def)
    moreover have "history z = history w" using t z
      by (cases "(t, goroutines w ! t, w)" rule: run.cases)
        (auto simp: model_defs split: prod.splits if_splits option.splits)
    ultimately show ?thesis using Get_run [OF t z assms(2)]
      by (intro exI [of _ "[(t, goroutines w ! t)]"]) (simp add: w' executed_def Get_def)
  next
    case (Tick t)
    with assms(1) obtain z where t: "t < length (goroutines w)"
      and z: "tick t (goroutines w ! t) w = Some z" and w': "w' = executed t w z"
      by (auto split: if_splits)
    from nth_le_sum_list [OF t, of "looping r"] nth_le_sum_list [OF t, of "starting r"]
      assms(3)
    have "looping r (goroutines w ! t) = 0 \<and> starting r (goroutines w ! t) = 0"
      by (simp add: loops_def)
    moreover have "history z = history w" using z
      by (cases "(t, goroutines w ! t, w)" rule: tick.cases)
        (auto simp: model_defs split: if_splits)
    ultimately show ?thesis using Get_tick [OF z, of r]
      by (intro exI [of _ "[(t, goroutines w ! t)]"]) (simp add: w' executed_def Get_def)
  next
    case (Cancel c)
    with assms(1) have "history w' = history w @ []" "Get r w' = Get r w"
      by (auto simp: Get_def)
    then show ?thesis by (intro exI [of _ "[]"]) simp
  next
    case (Advance d)
    with assms(1) have "history w' = history w @ []" "Get r w' = Get r w"
      by (auto simp: Get_def)
    then show ?thesis by (intro exI [of _ "[]"]) simp
  qed
  with 1 show ?thesis by simp
qed

lemma last_last: "last (last (x # xs) # ys) = last (x # xs @ ys)"
  by (cases ys) auto

lemma stopped_exec:
  assumes "exec acts w = Some w'" and "r < length (heap w)" and "loops r w = 0"
  shows "r < length (heap w') \<and> loops r w' = 0 \<and>
    (\<exists>h. history w' = history w @ h
       \<and> (\<forall>(u, g) \<in> set h. looping r g = 0 \<and> starting r g = 0)
       \<and> Get r w' = last (Get r w # stores_of r h))"
  using assms
proof (induction acts arbitrary: w)
  case Nil
  then have "history w' = history w @ []" "Get r w' = Get r w" "w' = w" by simp_all
  with Nil show ?case by (intro conjI exI [of _ "[]"]) simp_all
next
  case (Cons a acts)
  from Cons.prems(1) obtain w1 where s: "step a w = Some w1" and e: "exec acts w1 = Some w'"
    by (auto split: option.splits)
  from stopped_step [OF s Cons.prems(2,3)] obtain h1 where 1: "r < length (heap w1)"
    "loops r w1 = 0" "history w1 = history w @ h1"
    "\<forall>(u, g) \<in> set h1. looping r g = 0 \<and> starting r g = 0"
    "Get r w1 = last (Get r w # stores_of r h1)"
    by auto
  from Cons.IH [OF e 1(1,2)] obtain h2 where 2: "r < length (heap w')"
    "loops r w' = 0" "history w' = history w1 @ h2"
    "\<forall>(u, g) \<in> set h2. looping r g = 0 \<and> starting r g = 0"
    "Get r w' = last (Get r w1 # stores_of r h2)"
    by auto
  have "history w' = history w @ (h1 @ h2)" using 1 2 by simp
  moreover have "\<forall>(u, g) \<in> set (h1 @ h2). looping r g = 0 \<and> starting r g = 0"
    using 1 2 by auto
  moreover have "Get r w' = last (Get r w # stores_of r (h1 @ h2))"
    using 1 2 by (simp only: last_last stores_of_simps)
  ultimately show ?case using 2(1,2) by (intro conjI exI [of _ "h1 @ h2"])
qed

lemma loops_at_select:
  assumes inv: "loop_inv w" and t: "t < length (goroutines w)"
    and at: "looping r (goroutines w ! t) = 1"
  shows "r < length (heap w) \<and> loops r (jump t (Returned x) w) = 0"
proof -
  from inv have le: "loops r w \<le> (if r < length (heap w) then 1 else 0)"
    by (simp add: loop_inv_def)
  from nth_le_sum_list [OF t, of "looping r"] at
  have 1: "1 \<le> sum_list (map (looping r) (goroutines w))" by simp
  with le have r: "r < length (heap w)" by (auto simp: loops_def split: if_splits)
  with le 1 have "sum_list (map (looping r) (goroutines w)) = 1"
    "sum_list (map (starting r) (goroutines w)) = 0"
    by (auto simp: loops_def)
  with t at have "loops r (jump t (Returned x) w) = 0"
    by (simp add: loops_def jump_def sum_list_map_update_nat)
  with r show ?thesis ..
qed

lemma Returned_stays:
  "Returned x \<in> set (goroutines w) \<Longrightarrow> exec acts w = Some w' \<Longrightarrow>
     Returned x \<in> set (goroutines w')"
proof (induction acts arbitrary: w)
  case Nil
  then show ?case by simp
next
  case (Cons a acts)
  from Cons.prems(2) obtain w1 where s: "step a w = Some w1" and e: "exec acts w1 = Some w'"
    by (auto split: option.splits)
  from Cons.prems(1) obtain n where "n < length (goroutines w)" "goroutines w ! n = Returned x"
    by (auto simp: in_set_conv_nth)
  from Returned_step [OF this s] have "Returned x \<in> set (goroutines w1)"
    by (auto simp: in_set_conv_nth)
  from Cons.IH [OF this e] show ?case .
qed

lemma manual_Update:
  assumes "Returned (RCache r) \<in> set (goroutines w)" and "r < length (heap w)"
    and "updateFunc (heap w ! r) (env w) = ((v, err), env')"
  shows "map_option (Get r)
      (exec [Call (CallUpdate r), Run (length (goroutines w)), Run (length (goroutines w))] w)
    = Some (if err = None then v else Get r w)"
  using assms by (simp add: model_defs)

text \<open>
  C7, as the code has it. In every reachable world in which the context of a cache is
  done and its updateLoop waits in \<^verbatim>\<open>select\<close>, the branch \<^verbatim>\<open>case <-ctx.Done()\<close> is open. Once
  updateLoop has taken it, in every continuation and whatever time passes: the goroutine
  has returned; no goroutine executes a statement of the loop of that cache (the cache
  has no other loop and New starts none), neither \<^verbatim>\<open>select\<close> nor an Update called from the
  loop, so the stored value is the last one stored by an Update that the application or
  GlobalCacheUpdate called, or the value at the cancellation; and, whether or not the
  producer has failed before, an Update of a caller whose producer succeeds stores the
  produced value, as the function and as the call run on the machine when New has
  returned the cache.
\<close>

theorem updateLoop_stops_at_Done:
  assumes reach: "exec acts0 (init e) = Some w"
    and t: "t < length (goroutines w)"
    and at: "goroutines w ! t = updateLoop_47 r c d"
    and c: "c \<in> set (cancelled w)"
  shows "step (Run t) w = Some (executed t w (jump t (Returned RUnit) w))
    \<and> (\<forall>acts w'. exec acts (executed t w (jump t (Returned RUnit) w)) = Some w' \<longrightarrow>
         goroutines w' ! t = Returned RUnit
         \<and> r < length (heap w')
         \<and> (\<exists>h. history w' = history w @ (t, updateLoop_47 r c d) # h
               \<and> (\<forall>(u, g) \<in> set h. looping r g = 0 \<and> starting r g = 0)
               \<and> Get r w' = last (Get r w # stores_of r h))
         \<and> (\<forall>v env'. updateFunc (heap w' ! r) (env w') = ((v, None), env') \<longrightarrow>
               Get r (Update r w') = v
               \<and> (Returned (RCache r) \<in> set (goroutines w) \<longrightarrow>
                    map_option (Get r)
                      (exec [Call (CallUpdate r), Run (length (goroutines w')),
                             Run (length (goroutines w'))] w')
                    = Some v)))"
proof (intro conjI allI impI)
  let ?w1 = "executed t w (jump t (Returned RUnit) w)"
  from t at c show "step (Run t) w = Some ?w1" by simp
  fix acts w'
  assume e: "exec acts ?w1 = Some w'"
  from loop_inv_exec [OF loop_inv_init reach] have inv: "loop_inv w" .
  from at have "looping r (goroutines w ! t) = 1" by simp
  from loops_at_select [OF inv t this, of RUnit]
  have r: "r < length (heap ?w1)" and 0: "loops r ?w1 = 0"
    by (simp_all add: jump_def)
  from t have 1: "t < length (goroutines ?w1)" "goroutines ?w1 ! t = Returned RUnit"
    by (simp_all add: executed_def jump_def)
  from Returned_exec [OF 1 e] show "goroutines w' ! t = Returned RUnit" ..
  from stopped_exec [OF e r 0] obtain h where r': "r < length (heap w')"
    and h: "history w' = history ?w1 @ h"
      "\<forall>(u, g) \<in> set h. looping r g = 0 \<and> starting r g = 0"
      "Get r w' = last (Get r ?w1 # stores_of r h)"
    by auto
  from r' show "r < length (heap w')" .
  have "history w' = history w @ (t, updateLoop_47 r c d) # h"
    using h(1) at by (simp add: executed_def jump_def)
  moreover have "Get r w' = last (Get r w # stores_of r h)"
    using h(3) by (simp add: Get_def jump_def)
  ultimately show "\<exists>h. history w' = history w @ (t, updateLoop_47 r c d) # h
     \<and> (\<forall>(u, g) \<in> set h. looping r g = 0 \<and> starting r g = 0)
     \<and> Get r w' = last (Get r w # stores_of r h)"
    using h(2) by (intro exI [of _ h] conjI)
  fix v env'
  assume ok: "updateFunc (heap w' ! r) (env w') = ((v, None), env')"
  with r' show "Get r (Update r w') = v"
    by (simp add: Update_def call_updateFunc_def set_value_def Get_def)
  assume "Returned (RCache r) \<in> set (goroutines w)"
  then obtain n where n: "n < length (goroutines w)" "goroutines w ! n = Returned (RCache r)"
    by (auto simp: in_set_conv_nth)
  with at have "n \<noteq> t" by auto
  with n have "n < length (goroutines ?w1)" "goroutines ?w1 ! n = Returned (RCache r)"
    by (simp_all add: executed_def jump_def)
  then have "Returned (RCache r) \<in> set (goroutines ?w1)" by (metis nth_mem)
  from manual_Update [OF Returned_stays [OF this e] r' ok]
  show "map_option (Get r)
      (exec [Call (CallUpdate r), Run (length (goroutines w')), Run (length (goroutines w'))] w')
    = Some v"
    by simp
qed

theorem updateLoop_stops_at_Done_witness:
  "map_option (\<lambda>w. (goroutines w ! 1, cancelled w, Get 0 w)) (exec stopping (init 0))
     = Some (updateLoop_47 0 0 5, [0], 1)
   \<and> map_option (\<lambda>w. (goroutines w ! 1, Get 0 w, Get 0 (Update 0 w)))
        (exec (stopping @ [Run 1, Advance 10, Call (CallUpdate 0), Run 2, Run 2]) (init 0))
     = Some (Returned RUnit, 2, 3)
   \<and> exec (stopping @ [Run 1, Advance 10, Tick 1]) (init 0) = None
   \<and> map_option (\<lambda>w. (goroutines w ! 1, Get 0 w))
        (exec (stopping_failed @ [Run 1, Advance 10, Call (CallUpdate 0), Run 2, Run 2]) (init 0))
     = Some (Returned RUnit, 0)
   \<and> exec (stopping_failed @ [Run 1, Advance 10, Tick 1]) (init 0) = None"
proof -
  let ?acts = "[Advance 10, Call (CallUpdate 0), Run 2, Run 2] :: (int, int) action list"
  let ?w = "the (exec stopping (init 0))"
  let ?w' = "the (exec ?acts (executed 1 ?w (jump 1 (Returned RUnit) ?w)))"
  have 0: "exec stopping (init 0) = Some ?w"
    and 1: "1 < length (goroutines ?w)" and 2: "goroutines ?w ! 1 = updateLoop_47 0 0 5"
    and 3: "0 \<in> set (cancelled ?w)"
    and 4: "exec ?acts (executed 1 ?w (jump 1 (Returned RUnit) ?w)) = Some ?w'"
    and 5: "updateFunc (heap ?w' ! 0) (env ?w') = ((3, None), 3)"
    by (simp_all add: run_defs)
  note A = updateLoop_stops_at_Done [OF 0 1 2 3, THEN conjunct2, rule_format, OF 4]
  from A [THEN conjunct2, THEN conjunct2, THEN conjunct2, rule_format, OF 5, THEN conjunct1]
  have a: "Get 0 (Update 0 ?w') = 3" .
  let ?v = "the (exec stopping_failed (init 0))"
  let ?v' = "the (exec ?acts (executed 1 ?v (jump 1 (Returned RUnit) ?v)))"
  have 0: "exec stopping_failed (init 0) = Some ?v"
    and 1: "1 < length (goroutines ?v)" and 2: "goroutines ?v ! 1 = updateLoop_47 0 0 5"
    and 3: "0 \<in> set (cancelled ?v)"
    and 4: "exec ?acts (executed 1 ?v (jump 1 (Returned RUnit) ?v)) = Some ?v'"
    by (simp_all add: refresh_defs)
  note B = updateLoop_stops_at_Done [OF 0 1 2 3, THEN conjunct2, rule_format, OF 4]
  from B [THEN conjunct1] have b: "goroutines ?v' ! 1 = Returned RUnit" .
  from a b show ?thesis
    by (simp add: refresh_defs)
qed

text \<open>
  C7 as stated fails. The timer of a cache with period 5 ns fires and \<^verbatim>\<open>select\<close> takes the
  timer branch; then the context is cancelled; then the Update that updateLoop has
  called invokes the producer and stores 2 over 1, after the cancellation.
\<close>

theorem automatic_change_after_cancel:
  "map_option (\<lambda>w. (cancelled w, goroutines w ! 1, Get 0 w)) (exec in_flight (init 0))
     = Some ([0], Update_63 0 (FromLoop 0), 1)
   \<and> map_option (\<lambda>w. (cancelled w, goroutines w ! 1, Get 0 w))
        (exec (in_flight @ [Run 1, Run 1]) (init 0))
     = Some ([0], updateLoop_46 0 0, 2)"
  by (simp add: in_flight_def model_defs counting_def)

section \<open>Get after New\<close>

lemma stored_wg_Done: "wg_Done g = Some g' \<Longrightarrow> \<not> stored r g"
  by (cases g rule: wg_Done.cases) auto

lemma not_wg_Done [simp]:
  "wg_Done (Update_63 r k) = None" "wg_Done (Update_64 r v e k) = None"
  by simp_all

lemma updateFunc_update [simp]:
  "updateFunc (h[a := (h ! a)\<lparr>value := v\<rparr>] ! r) = updateFunc (h ! r)"
  by (cases "a < length h") (auto simp: nth_list_update list_update_beyond)

lemma calling_run:
  assumes "calling zero f t r c w" and u: "u < length (goroutines w)"
    and z: "run u (goroutines w ! u) w = Some w'"
    and q: "u \<noteq> t \<longrightarrow> store_64 r (goroutines w ! u) = []"
  shows "calling zero f t r c w'"
proof (cases "\<exists>p. goroutines w ! u = Worker_85 p")
  case True
  then obtain p where at: "goroutines w ! u = Worker_85 p" ..
  with z obtain g where p: "p < length (goroutines w)"
    and d: "wg_Done (goroutines w ! p) = Some g"
    and w': "w' = jump u (Returned RUnit) (jump p g w)"
    by (auto split: if_splits)
  from assms(1) at have ut: "u \<noteq> t" by (auto simp: calling_def)
  from assms(1) d stored_wg_Done [OF d, of r] have pt: "p \<noteq> t" by (auto simp: calling_def)
  from assms(1) ut pt show ?thesis by (auto simp: calling_def w' jump_def Get_def)
next
  case False
  from Get_run [OF u z, of r] assms(1) q
  have G: "u \<noteq> t \<Longrightarrow> Get r w' = Get r w" by (simp add: calling_def)
  show ?thesis
  proof (cases "u = t")
    case True
    with assms(1) z show ?thesis
      by (auto simp: calling_def model_defs nth_list_update nth_append
          split: prod.splits if_splits option.splits elim!: stored.elims)
  next
    case ne: False
    from G [OF ne] have G': "value (heap w' ! r) = value (heap w ! r)" by (simp add: Get_def)
    from False u z ne have 1: "goroutines w' ! t = goroutines w ! t"
      "length (goroutines w) \<le> length (goroutines w')" "length (heap w) \<le> length (heap w')"
      using assms(1)
      by (cases "(u, goroutines w ! u, w)" rule: run.cases;
          auto simp: calling_def model_defs nth_append nth_list_update
            split: prod.splits if_splits)+
    from False u z ne assms(1) have 2: "updateFunc (heap w' ! r) = updateFunc (heap w ! r)"
      by (cases "(u, goroutines w ! u, w)" rule: run.cases)
        (auto simp: calling_def model_defs nth_append nth_list_update
            split: prod.splits if_splits)
    from assms(1) 1 2 G' show ?thesis by (auto simp: calling_def Get_def)
  qed
qed


lemma storing_run:
  assumes "storing zero t r c v err w" and u: "u < length (goroutines w)"
    and z: "run u (goroutines w ! u) w = Some w'"
    and q: "u \<noteq> t \<longrightarrow> store_64 r (goroutines w ! u) = []"
  shows "storing zero t r c v err w'"
proof (cases "\<exists>p. goroutines w ! u = Worker_85 p")
  case True
  then obtain p where at: "goroutines w ! u = Worker_85 p" ..
  with z obtain g where p: "p < length (goroutines w)"
    and d: "wg_Done (goroutines w ! p) = Some g"
    and w': "w' = jump u (Returned RUnit) (jump p g w)"
    by (auto split: if_splits)
  from assms(1) at have ut: "u \<noteq> t" by (auto simp: storing_def)
  from assms(1) d stored_wg_Done [OF d, of r] have pt: "p \<noteq> t" by (auto simp: storing_def)
  from assms(1) ut pt show ?thesis by (auto simp: storing_def w' jump_def Get_def)
next
  case False
  from Get_run [OF u z, of r] assms(1) q
  have G: "u \<noteq> t \<Longrightarrow> Get r w' = Get r w" by (simp add: storing_def)
  show ?thesis
  proof (cases "u = t")
    case True
    with assms(1) z show ?thesis
      by (auto simp: storing_def model_defs nth_list_update nth_append
          split: prod.splits if_splits option.splits elim!: stored.elims)
  next
    case ne: False
    from False u z ne have 1: "goroutines w' ! t = goroutines w ! t"
      "length (goroutines w) \<le> length (goroutines w')" "length (heap w) \<le> length (heap w')"
      using assms(1)
      by (cases "(u, goroutines w ! u, w)" rule: run.cases;
          auto simp: storing_def model_defs nth_append nth_list_update
            split: prod.splits if_splits)+
    from assms(1) 1 G [OF ne] show ?thesis by (auto simp: storing_def)
  qed
qed

lemma calling_tick:
  assumes "calling zero f t r c w" and "u < length (goroutines w)"
    and "tick u (goroutines w ! u) w = Some w'"
  shows "calling zero f t r c w'"
  using assms
  by (cases "(u, goroutines w ! u, w)" rule: tick.cases)
    (auto simp: calling_def jump_def Get_def nth_list_update split: if_splits)

lemma storing_tick:
  assumes "storing zero t r c v err w" and "u < length (goroutines w)"
    and "tick u (goroutines w ! u) w = Some w'"
  shows "storing zero t r c v err w'"
  using assms
  by (cases "(u, goroutines w ! u, w)" rule: tick.cases)
    (auto simp: storing_def jump_def Get_def nth_list_update split: if_splits)

lemma calling_executed [simp]: "calling zero f t r c (executed u w w') = calling zero f t r c w'"
  by (simp add: calling_def executed_def Get_def)

lemma storing_executed [simp]:
  "storing zero t r c v err (executed u w w') = storing zero t r c v err w'"
  by (simp add: storing_def executed_def Get_def)

lemma history_exec: "exec acts w = Some w' \<Longrightarrow> \<exists>h. history w' = history w @ h"
proof (induction acts arbitrary: w)
  case Nil
  then show ?case by simp
next
  case (Cons a acts)
  from Cons.prems obtain w1 where s: "step a w = Some w1" and e: "exec acts w1 = Some w'"
    by (auto split: option.splits)
  from history_step [OF s] Cons.IH [OF e] show ?case by auto
qed

lemma quiet_simps [simp]:
  "quiet t r []" "quiet t r (h @ h') \<longleftrightarrow> quiet t r h \<and> quiet t r h'"
  "quiet t r ((u, g) # h) \<longleftrightarrow> (u \<noteq> t \<longrightarrow> store_64 r g = []) \<and> quiet t r h"
  by (auto simp: quiet_def)

lemma calling_step:
  assumes "calling zero f t r c w" and s: "step a w = Some w'"
    and q: "quiet t r (drop (length (history w)) (history w'))"
  shows "calling zero f t r c w'"
proof (cases a)
  case (Call k)
  with assms show ?thesis
    by (auto simp: calling_def go_def Get_def nth_append split: if_splits)
next
  case (Run u)
  with s obtain z where u: "u < length (goroutines w)"
    and z: "run u (goroutines w ! u) w = Some z" and w': "w' = executed u w z"
    by (auto split: if_splits)
  have "history z = history w" using u z
    by (cases "(u, goroutines w ! u, w)" rule: run.cases)
      (auto simp: model_defs split: prod.splits if_splits option.splits)
  with q have "u \<noteq> t \<longrightarrow> store_64 r (goroutines w ! u) = []"
    by (simp add: w' executed_def)
  from calling_run [OF assms(1) u z this] show ?thesis by (simp add: w')
next
  case (Tick u)
  with s obtain z where "u < length (goroutines w)" "tick u (goroutines w ! u) w = Some z"
    "w' = executed u w z"
    by (auto split: if_splits)
  with calling_tick [OF assms(1), of u z] show ?thesis by simp
next
  case (Cancel x)
  with assms show ?thesis by (auto simp: calling_def Get_def)
next
  case (Advance x)
  with assms show ?thesis by (auto simp: calling_def Get_def)
qed

lemma storing_step:
  assumes "storing zero t r c v err w" and s: "step a w = Some w'"
    and q: "quiet t r (drop (length (history w)) (history w'))"
  shows "storing zero t r c v err w'"
proof (cases a)
  case (Call k)
  with assms show ?thesis
    by (auto simp: storing_def go_def Get_def nth_append split: if_splits)
next
  case (Run u)
  with s obtain z where u: "u < length (goroutines w)"
    and z: "run u (goroutines w ! u) w = Some z" and w': "w' = executed u w z"
    by (auto split: if_splits)
  have "history z = history w" using u z
    by (cases "(u, goroutines w ! u, w)" rule: run.cases)
      (auto simp: model_defs split: prod.splits if_splits option.splits)
  with q have "u \<noteq> t \<longrightarrow> store_64 r (goroutines w ! u) = []"
    by (simp add: w' executed_def)
  from storing_run [OF assms(1) u z this] show ?thesis by (simp add: w')
next
  case (Tick u)
  with s obtain z where "u < length (goroutines w)" "tick u (goroutines w ! u) w = Some z"
    "w' = executed u w z"
    by (auto split: if_splits)
  with storing_tick [OF assms(1), of u z] show ?thesis by simp
next
  case (Cancel x)
  with assms show ?thesis by (auto simp: storing_def Get_def)
next
  case (Advance x)
  with assms show ?thesis by (auto simp: storing_def Get_def)
qed

lemma calling_exec:
  assumes "exec acts w = Some w'" and "calling zero f t r c w"
    and "quiet t r (drop (length (history w)) (history w'))"
  shows "calling zero f t r c w'"
  using assms
proof (induction acts arbitrary: w)
  case Nil
  then show ?case by simp
next
  case (Cons a acts)
  from Cons.prems(1) obtain w1 where s: "step a w = Some w1" and e: "exec acts w1 = Some w'"
    by (auto split: option.splits)
  from history_step [OF s] obtain h1 where h1: "history w1 = history w @ h1" by auto
  from history_exec [OF e] obtain h2 where h2: "history w' = history w1 @ h2" ..
  from Cons.prems(3) have q: "quiet t r h1" "quiet t r h2" by (simp_all add: h1 h2)
  from calling_step [OF Cons.prems(2) s] q(1) have "calling zero f t r c w1" by (simp add: h1)
  from Cons.IH [OF e this] q(2) show ?case by (simp add: h2)
qed

lemma storing_exec:
  assumes "exec acts w = Some w'" and "storing zero t r c v err w"
    and "quiet t r (drop (length (history w)) (history w'))"
  shows "storing zero t r c v err w'"
  using assms
proof (induction acts arbitrary: w)
  case Nil
  then show ?case by simp
next
  case (Cons a acts)
  from Cons.prems(1) obtain w1 where s: "step a w = Some w1" and e: "exec acts w1 = Some w'"
    by (auto split: option.splits)
  from history_step [OF s] obtain h1 where h1: "history w1 = history w @ h1" by auto
  from history_exec [OF e] obtain h2 where h2: "history w' = history w1 @ h2" ..
  from Cons.prems(3) have q: "quiet t r h1" "quiet t r h2" by (simp_all add: h1 h2)
  from storing_step [OF Cons.prems(2) s] q(1) have "storing zero t r c v err w1"
    by (simp add: h1)
  from Cons.IH [OF e this] q(2) show ?case by (simp add: h2)
qed

lemma quiet_drop: "quiet t r h \<Longrightarrow> quiet t r (drop n h)"
  by (auto simp: quiet_def dest: in_set_dropD)

lemma known_return_to [simp]:
  "known x (return_to r k :: ('v, 'e) goroutine)
     = (case k of FromNew c \<Rightarrow> if r = x then 1 else 0
        | FromLoop c \<Rightarrow> if r = x then 1 else 0 | _ \<Rightarrow> 0)"
  "first_call x (return_to r k :: ('v, 'e) goroutine) = 0"
  by (cases k; simp)+

lemma known_Update_63 [simp]:
  "known x (Update_63 r k :: ('v, 'e) goroutine)
     = (case k of FromNew c \<Rightarrow> 0 | _ \<Rightarrow> if r = x then 1 else 0)"
  "first_call x (Update_63 r k :: ('v, 'e) goroutine)
     = (case k of FromNew c \<Rightarrow> if r = x then 1 else 0 | _ \<Rightarrow> 0)"
  by (cases k; simp)+

lemma known_wg_Done:
  "wg_Done g = Some g' \<Longrightarrow>
     known r g' = known r g \<and> first_call r g' = 0 \<and> first_call r g = 0"
  by (cases g rule: wg_Done.cases) auto

lemma known_Returned: "known r (Returned RUnit) = 0" "known r (Returned (RValue v)) = 0"
  by simp_all

lemma known_mem: "g \<in> set gs \<Longrightarrow> known r g \<le> sum_list (map (known r) gs)"
  by (induction gs) auto

lemma first_call_settled:
  assumes t: "t < length (goroutines w)" and z: "run t (goroutines w ! t) w = Some w'"
    and "sum_list (map (first_call r) (goroutines w)) = 0" and "r < length (heap w)"
  shows "sum_list (map (first_call r) (goroutines w')) = 0 \<and> r < length (heap w')"
proof (cases "\<exists>q. goroutines w ! t = Worker_85 q")
  case True
  then obtain q where at: "goroutines w ! t = Worker_85 q" ..
  with z obtain g where q: "q < length (goroutines w)"
    and d: "wg_Done (goroutines w ! q) = Some g"
    and w': "w' = jump t (Returned RUnit) (jump q g w)"
    by (auto split: if_splits)
  have neq: "q \<noteq> t" using at d by auto
  from q t neq at known_wg_Done [OF d, of r] assms(3,4) show ?thesis
    by (simp add: w' jump_def sum_list_map_update_nat)
next
  case False
  with assms nth_le_sum_list [OF t, of "first_call r"]
  show ?thesis
    by (cases "(t, goroutines w ! t, w)" rule: run.cases)
      (auto simp: model_defs sum_list_map_update_nat nth_append
        list_update_append split: prod.splits if_splits caller.splits)
qed

lemma first_call_unborn:
  assumes t: "t < length (goroutines w)" and z: "run t (goroutines w ! t) w = Some w'"
    and "\<not> r < length (heap w)"
    and "sum_list (map (first_call r) (goroutines w)) = 0"
    and "sum_list (map (known r) (goroutines w)) = 0" and "count_list (globalCaches w) r = 0"
  shows "sum_list (map (known r) (goroutines w')) = 0 \<and> count_list (globalCaches w') r = 0
    \<and> invoking r (goroutines w ! t) = 0
    \<and> (if r < length (heap w') then sum_list (map (first_call r) (goroutines w')) = 1
        else sum_list (map (first_call r) (goroutines w')) = 0)"
proof (cases "\<exists>q. goroutines w ! t = Worker_85 q")
  case True
  then obtain q where at: "goroutines w ! t = Worker_85 q" ..
  with z obtain g where q: "q < length (goroutines w)"
    and d: "wg_Done (goroutines w ! q) = Some g"
    and w': "w' = jump t (Returned RUnit) (jump q g w)"
    by (auto split: if_splits)
  have neq: "q \<noteq> t" using at d by auto
  from q t neq at known_wg_Done [OF d, of r] assms(3-)
    nth_le_sum_list [OF q, of "known r"] show ?thesis
    by (simp add: w' jump_def sum_list_map_update_nat)
next
  case False
  with assms nth_le_sum_list [OF t, of "first_call r"] nth_le_sum_list [OF t, of "known r"]
  show ?thesis
    by (cases "(t, goroutines w ! t, w)" rule: run.cases)
      (auto simp: model_defs sum_list_map_update_nat nth_append count_list_0_iff
        list_update_append split: prod.splits if_splits caller.splits)
qed

lemma first_call_private:
  assumes t: "t < length (goroutines w)" and z: "run t (goroutines w ! t) w = Some w'"
    and "r < length (heap w)"
    and "sum_list (map (first_call r) (goroutines w)) = 1"
    and "sum_list (map (known r) (goroutines w)) = 0" and "count_list (globalCaches w) r = 0"
  shows "r < length (heap w')
    \<and> (if first_call r (goroutines w ! t) = 1
        then sum_list (map (first_call r) (goroutines w')) = 0
        else sum_list (map (first_call r) (goroutines w')) = 1
          \<and> sum_list (map (known r) (goroutines w')) = 0 \<and> count_list (globalCaches w') r = 0
          \<and> invoking r (goroutines w ! t) = 0)"
proof (cases "\<exists>q. goroutines w ! t = Worker_85 q")
  case True
  then obtain q where at: "goroutines w ! t = Worker_85 q" ..
  with z obtain g where q: "q < length (goroutines w)"
    and d: "wg_Done (goroutines w ! q) = Some g"
    and w': "w' = jump t (Returned RUnit) (jump q g w)"
    by (auto split: if_splits)
  have neq: "q \<noteq> t" using at d by auto
  from q t neq at known_wg_Done [OF d, of r] assms(3-)
    nth_le_sum_list [OF q, of "known r"] show ?thesis
    by (simp add: w' jump_def sum_list_map_update_nat)
next
  case False
  with assms nth_le_sum_list [OF t, of "first_call r"] nth_le_sum_list [OF t, of "known r"]
  show ?thesis
    by (cases "(t, goroutines w ! t, w)" rule: run.cases)
      (auto simp: model_defs sum_list_map_update_nat nth_append count_list_0_iff
        list_update_append split: prod.splits if_splits caller.splits)
qed


lemma history_run:
  "t < length (goroutines w) \<Longrightarrow> run t (goroutines w ! t) w = Some w' \<Longrightarrow>
     history w' = history w"
  by (cases "(t, goroutines w ! t, w)" rule: run.cases)
    (auto simp: model_defs split: prod.splits if_splits option.splits)

lemma first_inv_run:
  assumes inv: "first_inv r w" and t: "t < length (goroutines w)"
    and z: "run t (goroutines w ! t) w = Some w'"
  shows "first_inv r (executed t w w')"
proof -
  have h: "history (executed t w w') = history w @ [(t, goroutines w ! t)]"
    "goroutines (executed t w w') = goroutines w'" "heap (executed t w w') = heap w'"
    "globalCaches (executed t w w') = globalCaches w'"
    by (simp_all add: executed_def)
  consider (settled) "r < length (heap w)" "sum_list (map (first_call r) (goroutines w)) = 0"
    | (owned) "r < length (heap w)" "sum_list (map (first_call r) (goroutines w)) = 1"
      "sum_list (map (known r) (goroutines w)) = 0" "count_list (globalCaches w) r = 0"
      "sum_list (map (invoking r \<circ> snd) (history w)) = 0"
    | (unborn) "\<not> r < length (heap w)" "sum_list (map (first_call r) (goroutines w)) = 0"
      "sum_list (map (known r) (goroutines w)) = 0" "count_list (globalCaches w) r = 0"
      "sum_list (map (invoking r \<circ> snd) (history w)) = 0"
    using inv by (auto simp: first_inv_def split: if_splits)
  then show ?thesis
  proof cases
    case settled
    from first_call_settled [OF t z settled(2,1)] show ?thesis by (simp add: first_inv_def h)
  next
    case owned
    from first_call_private [OF t z owned(1-4)] owned(5) show ?thesis
      by (auto simp: first_inv_def h split: if_splits)
  next
    case unborn
    from first_call_unborn [OF t z unborn(1-4)] unborn(5) show ?thesis
      by (auto simp: first_inv_def h split: if_splits)
  qed
qed

lemma first_inv_tick:
  assumes inv: "first_inv r w" and t: "t < length (goroutines w)"
    and z: "tick t (goroutines w ! t) w = Some w'"
  shows "first_inv r (executed t w w')"
  using assms nth_le_sum_list [OF t, of "first_call r"] nth_le_sum_list [OF t, of "known r"]
  by (cases "(t, goroutines w ! t, w)" rule: tick.cases)
    (auto simp: first_inv_def jump_def executed_def sum_list_map_update_nat split: if_splits)

lemma first_inv_step:
  assumes "first_inv r w" and "step a w = Some w'"
  shows "first_inv r w'"
proof (cases a)
  case (Call k)
  with assms(2) have c: "callable k w" and w': "w' = go (entry k) w"
    by (auto split: if_splits)
  have "known r (entry k) \<le> sum_list (map (known r) (goroutines w))"
  proof (cases k)
    case (CallGet x)
    with c known_mem [of "Returned (RCache x)" "goroutines w" r] show ?thesis by auto
  next
    case (CallUpdate x)
    with c known_mem [of "Returned (RCache x)" "goroutines w" r] show ?thesis by auto
  qed simp_all
  moreover have "first_call r (entry k) = 0" by (cases k) simp_all
  ultimately show ?thesis using assms(1)
    by (auto simp: first_inv_def w' go_def split: if_splits)
next
  case (Run t)
  with assms(2) obtain z where "t < length (goroutines w)" "run t (goroutines w ! t) w = Some z"
    "w' = executed t w z"
    by (auto split: if_splits)
  with first_inv_run [OF assms(1), of t z] show ?thesis by simp
next
  case (Tick t)
  with assms(2) obtain z where "t < length (goroutines w)" "tick t (goroutines w ! t) w = Some z"
    "w' = executed t w z"
    by (auto split: if_splits)
  with first_inv_tick [OF assms(1), of t z] show ?thesis by simp
next
  case (Cancel c)
  with assms show ?thesis by (auto simp: first_inv_def)
next
  case (Advance d)
  with assms show ?thesis by (auto simp: first_inv_def)
qed

lemma first_inv_exec:
  "first_inv r w \<Longrightarrow> exec acts w = Some w' \<Longrightarrow> first_inv r w'"
proof (induction acts arbitrary: w)
  case Nil
  then show ?case by simp
next
  case (Cons a acts)
  then show ?case by (auto split: option.splits dest: first_inv_step)
qed

lemma first_inv_init: "first_inv r (init e)"
  by (simp add: first_inv_def init_def)

lemma first_invocation:
  assumes "exec acts (init e) = Some w" and t: "t < length (goroutines w)"
    and at: "goroutines w ! t = Update_63 r (FromNew c)"
  shows "sum_list (map (invoking r \<circ> snd) (history w)) = 0"
proof -
  from first_inv_exec [OF first_inv_init assms(1)] have "first_inv r w" .
  moreover from nth_le_sum_list [OF t, of "first_call r"] at
  have "sum_list (map (first_call r) (goroutines w)) \<noteq> 0" by simp
  ultimately show ?thesis by (simp add: first_inv_def split: if_splits)
qed

text \<open>
  C3, as the code has it. New starts updateLoop (line 35) before it registers the cache
  and returns, so other goroutines run between the Update of New and a Get after New.
  In every reachable world and on every schedule: the goroutine of New allocates the
  cache \<open>r\<close>; when it stands at line 63 the producer of \<open>r\<close> has not been invoked before,
  so the invocation \<open>(v, err)\<close> it makes there is the first one; and when New has returned
  and no other goroutine has stored a value into \<open>r\<close> in the meantime, New has returned
  \<open>r\<close> and Get on \<open>r\<close> returns \<open>v\<close> if \<open>err\<close> is nil and the zero value otherwise.
\<close>

theorem Get_after_New:
  assumes reach: "exec acts0 (init e) = Some w"
    and t: "t < length (goroutines w)"
    and at: "goroutines w ! t = New_29 zero c p f"
    and e1: "exec (Run t # acts1) w = Some w1"
    and at1: "goroutines w1 ! t = Update_63 r k"
    and call: "f (env w1) = ((v, err), env')"
    and e2: "exec (Run t # acts2) w1 = Some w'"
    and ret: "goroutines w' ! t = Returned x"
    and q: "\<forall>(u, g) \<in> set (drop (length (history w)) (history w')).
              u \<noteq> t \<longrightarrow> store_64 (length (heap w)) g = []"
  shows "r = length (heap w) \<and> k = FromNew c
    \<and> (\<forall>(u, g) \<in> set (history w1). invoking r g = 0)
    \<and> x = RCache r
    \<and> Get r w' = (if err = None then v else zero)
    \<and> run u (Get_57 r) w' = Some (jump u (Returned (RValue (if err = None then v else zero))) w')"
proof -
  let ?r = "length (heap w)"
  let ?w0 = "executed t w (jump t (Update_63 ?r (FromNew c))
      (w\<lparr>heap := heap w @ [\<lparr>value = zero, period = p, updateFunc = f\<rparr>]\<rparr>))"
  from t at have s0: "step (Run t) w = Some ?w0" by (simp add: alloc_def)
  with e1 have x1: "exec acts1 ?w0 = Some w1" by simp
  from t have c0: "calling zero f t ?r c ?w0"
    by (simp add: calling_def executed_def jump_def Get_def)
  have h0: "history ?w0 = history w @ [(t, goroutines w ! t)]"
    by (simp add: executed_def jump_def)
  from history_exec [OF x1] obtain h1 where h1: "history w1 = history ?w0 @ h1" ..
  from history_exec [OF e2] obtain h2 where h2: "history w' = history w1 @ h2" ..
  from q have "quiet t ?r (drop (length (history w)) (history w'))" by (simp add: quiet_def)
  then have q1: "quiet t ?r h1" and q2: "quiet t ?r h2" by (simp_all add: h2 h1 h0)
  from calling_exec [OF x1 c0] q1 have c1: "calling zero f t ?r c w1" by (simp add: h1)
  with at1 have r: "r = ?r" and k: "k = FromNew c" and t1: "t < length (goroutines w1)"
    and r1: "?r < length (heap w1)" and z: "Get ?r w1 = zero"
    and f: "updateFunc (heap w1 ! ?r) = f"
    by (auto simp: calling_def)
  from first_invocation [OF exec_append_Some [OF reach e1] t1] at1 k
  have "sum_list (map (invoking r \<circ> snd) (history w1)) = 0" by simp
  then have first: "\<forall>(u, g) \<in> set (history w1). invoking r g = 0"
    by (auto simp: sum_list_eq_0_iff)
  let ?w2 = "executed t w1 (jump t (Update_64 ?r v err (FromNew c)) (w1\<lparr>env := env'\<rparr>))"
  from t1 at1 r k f call have s1: "step (Run t) w1 = Some ?w2"
    by (simp add: call_updateFunc_def)
  with e2 have x2: "exec acts2 ?w2 = Some w'" by simp
  from t1 r1 z have c2: "storing zero t ?r c v err ?w2"
    by (simp add: storing_def executed_def jump_def Get_def)
  have "history ?w2 = history w1 @ [(t, goroutines w1 ! t)]"
    by (simp add: executed_def jump_def)
  with quiet_drop [OF q2, of "Suc 0"] h2
  have "quiet t ?r (drop (length (history ?w2)) (history w'))" by simp
  from storing_exec [OF x2 c2 this] ret
  have "x = RCache ?r" and "Get ?r w' = (if err = None then v else zero)"
    by (auto simp: storing_def elim!: stored.elims)
  with r k first show ?thesis by (simp add: Get_def)
qed

theorem Get_after_New_witness:
  "map_option (\<lambda>w. (goroutines w ! 2, Get 0 w, Get 1 w, goroutines w ! 5))
     (exec (second_New @ [Run 2, Run 1, Call (CallUpdate 0), Run 3, Run 2, Run 3, Run 2, Run 2,
        Run 4, Advance 3, Run 2, Run 2, Run 2, Call (CallGet 1), Run 5]) (init 0))
     = Some (Returned (RCache 1), 2, 3, Returned (RValue 3))
   \<and> map_option (\<lambda>w. (goroutines w ! 0, Get 0 w))
       (exec [Call (CallNew 7 0 hour flaky), Run 0, Run 0, Run 0, Run 0, Run 0, Run 0, Run 0]
          (init (1, True)))
     = Some (Returned (RCache 0), 7)"
proof -
  let ?w = "the (exec second_New (init 0))"
  let ?acts1 = "[Run 1, Call (CallUpdate 0), Run 3] :: (int, int) action list"
  let ?acts2 = "[Run 3, Run 2, Run 2, Run 4, Advance 3, Run 2, Run 2, Run 2]
    :: (int, int) action list"
  let ?w1 = "the (exec (Run 2 # ?acts1) ?w)"
  let ?w' = "the (exec (Run 2 # ?acts2) ?w1)"
  have 0: "exec second_New (init 0) = Some ?w"
    and 1: "2 < length (goroutines ?w)" and 2: "goroutines ?w ! 2 = New_29 7 0 5 counting"
    and 3: "exec (Run 2 # ?acts1) ?w = Some ?w1"
    and 4: "goroutines ?w1 ! 2 = Update_63 1 (FromNew 0)"
    and 5: "counting (env ?w1) = ((3, None), 3)"
    by (simp_all add: refresh_defs)
  have 6: "exec (Run 2 # ?acts2) ?w1 = Some ?w'"
    and 7: "goroutines ?w' ! 2 = Returned (RCache 1)"
    by (simp_all add: refresh_defs)
  have 8: "\<forall>(u, g) \<in> set (drop (length (history ?w)) (history ?w')).
     u \<noteq> 2 \<longrightarrow> store_64 (length (heap ?w)) g = []"
    by (simp add: refresh_defs)
  note a = Get_after_New [OF 0 1 2 3 4 5 6 7 8]
  from a [THEN conjunct2, THEN conjunct2, THEN conjunct2, THEN conjunct2, THEN conjunct1]
  have A: "Get 1 ?w' = 3" by (simp only: simp_thms if_True)
  let ?v = "go (New_29 7 0 hour flaky) (init (1, True))"
  let ?v1 = "the (exec [Run 0] ?v)"
  let ?rest = "[Run 0, Run 0, Run 0, Run 0, Run 0] :: (int, int \<times> bool) action list"
  let ?v' = "the (exec (Run 0 # ?rest) ?v1)"
  have b: "exec [Call (CallNew 7 0 hour flaky)] (init (1, True)) = Some ?v"
    "0 < length (goroutines ?v)" "goroutines ?v ! 0 = New_29 7 0 hour flaky"
    "exec (Run 0 # []) ?v = Some ?v1" "goroutines ?v1 ! 0 = Update_63 0 (FromNew 0)"
    "flaky (env ?v1) = ((0, Some (Error ''update failed'')), (1, True))"
    "exec (Run 0 # ?rest) ?v1 = Some ?v'" "goroutines ?v' ! 0 = Returned (RCache 0)"
    "\<forall>(u, g) \<in> set (drop (length (history ?v)) (history ?v')).
       u \<noteq> 0 \<longrightarrow> store_64 (length (heap ?v)) g = []"
    by (simp_all add: model_defs flaky_def)
  note b' = Get_after_New [OF b]
  from b' [THEN conjunct2, THEN conjunct2, THEN conjunct2, THEN conjunct2, THEN conjunct1]
  have B: "Get 0 ?v' = 7" by (simp only: simp_thms if_False option.simps)
  from A B show ?thesis
    by (simp add: refresh_defs)
qed

text \<open>
  C3 as stated fails. The loop that New starts at line 35 runs before New returns. With
  period 0 its timer fires at once, it invokes the producer a second time and stores 2
  over 1; New then registers the cache and returns, and Get right after New returns 2,
  not the result 1 of the first invocation. With a producer whose first invocation
  fails, Get right after New returns 99, the result of the second invocation, not the
  zero value. The third entry of the history is the return of the producer in the Update
  of New.
\<close>

theorem Get_after_New_refreshed:
  "counting 0 = ((1, None), 1)
   \<and> map_option (\<lambda>w. (goroutines w ! 0, history w ! 2, goroutines w ! 2))
       (exec early_refresh (init 0))
     = Some (Returned (RCache 0), (0, Update_64 0 1 None (FromNew 0)), Returned (RValue 2))
   \<and> recovering False = ((0, Some (Error ''update failed'')), True)
   \<and> map_option (\<lambda>w. (goroutines w ! 0, history w ! 2, goroutines w ! 2))
       (exec early_recovery (init False))
     = Some (Returned (RCache 0), (0, Update_64 0 0 (Some (Error ''update failed'')) (FromNew 0)),
         Returned (RValue 99))"
  by (simp add: model_defs counting_def recovering_def early_refresh_def early_recovery_def)

end
